theory Spec2Isabelle
  imports Main
begin

section \<open>Data model of gvalop\_parser.py\<close>

text \<open>
  Python objects live in a store: a list of objects, an object's identity is its index
  (\<open>addr\<close>), a new object is appended at index \<open>length h\<close>. Identity tests
  (\<open>x is y\<close>) are equality of addresses. Strings are lists of characters (code points
  below 256). A Group's \<open>children\<close> list belongs to exactly one Group (every Group is
  constructed with a new list and \<open>__deepcopy__\<close> assigns a new one), so the list
  object is modelled as a field of its Group, and the \<open>items\<close> argument of the
  \<open>consume\<close> methods is the address of the Group whose children list it is.
\<close>

type_synonym addr = nat

datatype Grouping = Grouping (g_start: string) (g_end: string)

datatype 'v obj =
    Group "addr option" "Grouping option" "addr list"
  | OperatorBinary string "'v \<Rightarrow> 'v \<Rightarrow> 'v"
  | OperatorUnary string "'v \<Rightarrow> 'v"
  | Value "string \<Rightarrow> 'v" string
  | Result 'v nat

type_synonym 'v heap = "'v obj list"

text \<open>The object at an address; an address outside the store is no object (no Python
  reference is dangling, so the code never meets one), and the definitions below send
  it to the branch of an object of an unexpected class.\<close>

definition lookup :: "'v heap \<Rightarrow> addr \<Rightarrow> 'v obj option" where
  "lookup h a = (if a < length h then Some (h ! a) else None)"

text \<open>The messages of the errors raised in the module; the two formatted messages of
  \<open>Group.consume\<close> carry the number they print.\<close>

datatype message =
    LeftOrRightOperandMissing
  | LeftOperandNotResult
  | RightOperandMissing
  | OperatorAtIndex nat
  | OperatorMissingAfterIndex nat

text \<open>\<open>ParserError\<close> subclasses carry an optional index; the other constructors are the
  Python built-in exceptions the code can raise.\<close>

datatype error =
    InvalidOperandError message "nat option"
  | MissingOperatorError message "nat option"
  | IndexError
  | AttributeError
  | TypeError

text \<open>The outcome of a call: it ran out of fuel (the model of a call that does not
  return), it raised, or it returned; the store as the call left it comes with the last
  two.\<close>

datatype ('a, 'v) outcome =
    OutOfFuel
  | Raised error "'v heap"
  | Returned 'a "'v heap"

section \<open>Python lists and strings\<close>

definition py_norm :: "'a list \<Rightarrow> int \<Rightarrow> nat option" where
  "py_norm xs i =
     (let n = int (length xs); j = (if i < 0 then i + n else i)
      in if 0 \<le> j \<and> j < n then Some (nat j) else None)"

definition py_getitem :: "'a list \<Rightarrow> int \<Rightarrow> 'a option" where
  "py_getitem xs i = (case py_norm xs i of None \<Rightarrow> None | Some j \<Rightarrow> Some (xs ! j))"

definition py_setitem :: "'a list \<Rightarrow> int \<Rightarrow> 'a \<Rightarrow> 'a list option" where
  "py_setitem xs i v = (case py_norm xs i of None \<Rightarrow> None | Some j \<Rightarrow> Some (xs[j := v]))"

definition py_delitem :: "'a list \<Rightarrow> int \<Rightarrow> 'a list option" where
  "py_delitem xs i =
     (case py_norm xs i of None \<Rightarrow> None | Some j \<Rightarrow> Some (take j xs @ drop (Suc j) xs))"

definition isspace :: "char \<Rightarrow> bool" where
  "isspace c =
     (let k = (of_char c :: nat)
      in (9 \<le> k \<and> k \<le> 13) \<or> (28 \<le> k \<and> k \<le> 32) \<or> k = 133 \<or> k = 160)"

definition strip :: "string \<Rightarrow> string" where
  "strip s = rev (dropWhile isspace (rev (dropWhile isspace s)))"

definition items_getitem :: "'v heap \<Rightarrow> addr \<Rightarrow> int \<Rightarrow> addr option" where
  "items_getitem h items i =
     (case lookup h items of Some (Group p g cs) \<Rightarrow> py_getitem cs i | _ \<Rightarrow> None)"

definition items_setitem :: "'v heap \<Rightarrow> addr \<Rightarrow> int \<Rightarrow> addr \<Rightarrow> error + 'v heap" where
  "items_setitem h items i x =
     (case lookup h items of
        Some (Group p g cs) \<Rightarrow>
          (case py_setitem cs i x of
             None \<Rightarrow> Inl IndexError
           | Some cs' \<Rightarrow> Inr (h[items := Group p g cs']))
      | _ \<Rightarrow> Inl TypeError)"

definition items_delitem :: "'v heap \<Rightarrow> addr \<Rightarrow> int \<Rightarrow> error + 'v heap" where
  "items_delitem h items i =
     (case lookup h items of
        Some (Group p g cs) \<Rightarrow>
          (case py_delitem cs i of
             None \<Rightarrow> Inl IndexError
           | Some cs' \<Rightarrow> Inr (h[items := Group p g cs']))
      | _ \<Rightarrow> Inl TypeError)"

section \<open>Lengths and the \<open>consumed_length\<close> attribute\<close>

definition Grouping_len :: "Grouping \<Rightarrow> nat" where
  "Grouping_len g = length (g_start g) + length (g_end g)"

text \<open>\<open>sum(len(child) for child in self.children)\<close>, the first failing child's error
  propagating.\<close>

primrec sum_len :: "(addr \<Rightarrow> (error + nat) option) \<Rightarrow> addr list \<Rightarrow> (error + nat) option" where
  "sum_len lenf [] = Some (Inr 0)"
| "sum_len lenf (c # cs) =
     (case lenf c of
        None \<Rightarrow> None
      | Some (Inl e) \<Rightarrow> Some (Inl e)
      | Some (Inr l) \<Rightarrow>
          (case sum_len lenf cs of
             None \<Rightarrow> None
           | Some (Inl e) \<Rightarrow> Some (Inl e)
           | Some (Inr s) \<Rightarrow> Some (Inr (l + s))))"

text \<open>\<open>len(x)\<close>: \<open>Group.__len__\<close>, \<open>Operator.__len__\<close>, \<open>Value.__len__\<close>; a Result has no
  \<open>__len__\<close>.\<close>

fun len :: "nat \<Rightarrow> 'v heap \<Rightarrow> addr \<Rightarrow> (error + nat) option" where
  "len 0 h x = None"
| "len (Suc n) h x =
     (case lookup h x of
        Some (Group p g cs) \<Rightarrow> sum_len (len n h) cs
      | Some (OperatorBinary rep f) \<Rightarrow> Some (Inr (length rep))
      | Some (OperatorUnary rep f) \<Rightarrow> Some (Inr (length rep))
      | Some (Value f v) \<Rightarrow> Some (Inr (length v))
      | _ \<Rightarrow> Some (Inl TypeError))"

text \<open>The \<open>for parent_child in self.parent.children\<close> loop of the property
  \<open>Group.consumed_length\<close>; \<open>attr\<close> reads \<open>parent_child.consumed_length\<close> and \<open>lenf\<close> is
  \<open>len(parent_child)\<close>.\<close>

primrec parent_children_loop ::
  "(addr \<Rightarrow> (error + nat) option) \<Rightarrow> (addr \<Rightarrow> (error + nat) option) \<Rightarrow> addr \<Rightarrow>
   addr list \<Rightarrow> nat \<Rightarrow> (error + nat) option" where
  "parent_children_loop attr lenf self [] acc = Some (Inr acc)"
| "parent_children_loop attr lenf self (parent_child # rest) acc =
     (if parent_child = self then Some (Inr acc)
      else
        (case attr parent_child of
           None \<Rightarrow> None
         | Some (Inr c) \<Rightarrow> parent_children_loop attr lenf self rest (acc + c)
         | Some (Inl e) \<Rightarrow>
             (if e = AttributeError then
                (case lenf parent_child of
                   None \<Rightarrow> None
                 | Some (Inl e') \<Rightarrow> Some (Inl e')
                 | Some (Inr l) \<Rightarrow> parent_children_loop attr lenf self rest (acc + l))
              else Some (Inl e))))"

text \<open>The property \<open>Group.consumed_length\<close> of the Group at \<open>self\<close>.\<close>

definition Group_consumed_length ::
  "(addr \<Rightarrow> (error + nat) option) \<Rightarrow> (addr \<Rightarrow> (error + nat) option) \<Rightarrow> 'v heap \<Rightarrow>
   addr \<Rightarrow> (error + nat) option" where
  "Group_consumed_length attr lenf h self =
     (case lookup h self of
        Some (Group parent grouping children) \<Rightarrow>
          (case children of
             [] \<Rightarrow> Some (Inl IndexError)
           | c0 # _ \<Rightarrow>
               (case attr c0 of
                  None \<Rightarrow> None
                | Some r \<Rightarrow>
                    (case (case r of
                             Inl e \<Rightarrow> if e = AttributeError then Inr 0 else Inl e
                           | Inr c \<Rightarrow> Inr c) of
                       Inl e \<Rightarrow> Some (Inl e)
                     | Inr consumed \<Rightarrow>
                         (case parent of
                            None \<Rightarrow> Some (Inr consumed)
                          | Some p \<Rightarrow>
                              (case lookup h p of
                                 Some (Group pp pg pcs) \<Rightarrow>
                                   (case pcs of
                                      [] \<Rightarrow> Some (Inl IndexError)
                                    | pc0 # _ \<Rightarrow>
                                        (if pc0 = self then
                                           (case grouping of
                                              None \<Rightarrow> Some (Inl AttributeError)
                                            | Some g \<Rightarrow> Some (Inr (consumed + length (g_start g))))
                                         else
                                           (case parent_children_loop attr lenf self pcs consumed of
                                              None \<Rightarrow> None
                                            | Some (Inl e) \<Rightarrow> Some (Inl e)
                                            | Some (Inr t) \<Rightarrow> Some (Inr (t + 1)))))
                               | _ \<Rightarrow> Some (Inl AttributeError))))))
      | _ \<Rightarrow> Some (Inl AttributeError))"

text \<open>Reading \<open>x.consumed_length\<close> of any object: the field of a Result, the property of
  a Group, AttributeError for a Value or an Operator.\<close>

fun consumed_length :: "nat \<Rightarrow> 'v heap \<Rightarrow> addr \<Rightarrow> (error + nat) option" where
  "consumed_length 0 h x = None"
| "consumed_length (Suc n) h x =
     (case lookup h x of
        Some (Group p g cs) \<Rightarrow> Group_consumed_length (consumed_length n h) (len n h) h x
      | Some (Result v c) \<Rightarrow> Some (Inr c)
      | _ \<Rightarrow> Some (Inl AttributeError))"

text \<open>Reading \<open>x.consumed_length\<close> and then \<open>x.value\<close> where the code expects a Result:
  both fields of a Result; a Group has the property but no \<open>value\<close>.\<close>

definition read_result :: "nat \<Rightarrow> 'v heap \<Rightarrow> addr \<Rightarrow> (error + 'v \<times> nat) option" where
  "read_result n h x =
     (case lookup h x of
        Some (Result v c) \<Rightarrow> Some (Inr (v, c))
      | Some (Group p g cs) \<Rightarrow>
          (case consumed_length n h x of
             None \<Rightarrow> None
           | Some (Inl e) \<Rightarrow> Some (Inl e)
           | Some (Inr _) \<Rightarrow> Some (Inl AttributeError))
      | _ \<Rightarrow> Some (Inl AttributeError))"

section \<open>The consume protocol\<close>

text \<open>
  A \<open>consume\<close> method is called as \<open>x.consume(items, index, func)\<close>; its model takes the
  store, the address \<open>self\<close> of \<open>x\<close>, the Group whose children list \<open>items\<close> is, the
  index and the optional evaluation function, and returns the index of the returned
  pair (the returned list is \<open>items\<close> itself, changed in place). The methods that call
  \<open>consume\<close> of another object take that dynamic dispatch as the parameter
  \<open>consume_rec\<close>; \<open>consume\<close> below ties the knot. Operator objects are never assigned
  to after construction, so an operator's \<open>representation\<close> and \<open>func\<close> are passed by
  value.
\<close>

type_synonym 'v consume_fn =
  "'v heap \<Rightarrow> addr \<Rightarrow> addr \<Rightarrow> int \<Rightarrow> (string \<Rightarrow> 'v) option \<Rightarrow> (int, 'v) outcome"

definition Value_consume ::
  "'v heap \<Rightarrow> addr \<Rightarrow> addr \<Rightarrow> int \<Rightarrow> (string \<Rightarrow> 'v) option \<Rightarrow> (int, 'v) outcome" where
  "Value_consume h self items index func =
     (case lookup h self of
        Some (Value sfunc svalue) \<Rightarrow>
          (let f = (case func of None \<Rightarrow> sfunc | Some f' \<Rightarrow> f');
               h1 = h[self := Value f svalue];
               result = length h1;
               h2 = h1 @ [Result (f svalue) (length svalue)]
           in case items_setitem h2 items index result of
                Inl e \<Rightarrow> Raised e h2
              | Inr h3 \<Rightarrow> Returned index h3)
      | _ \<Rightarrow> Raised AttributeError h)"

definition OperatorUnary_consume ::
  "'v consume_fn \<Rightarrow> nat \<Rightarrow> string \<Rightarrow> ('v \<Rightarrow> 'v) \<Rightarrow>
   'v heap \<Rightarrow> addr \<Rightarrow> int \<Rightarrow> (string \<Rightarrow> 'v) option \<Rightarrow> (int, 'v) outcome" where
  "OperatorUnary_consume consume_rec n rep f h items index func =
     (case items_getitem h items (index + 1) of
        None \<Rightarrow> Raised (InvalidOperandError RightOperandMissing None) h
      | Some right \<Rightarrow>
          (case consume_rec h right items (index + 1) func of
             OutOfFuel \<Rightarrow> OutOfFuel
           | Raised e h1 \<Rightarrow> Raised e h1
           | Returned _ h1 \<Rightarrow>
               (case items_getitem h1 items (index + 1) of
                  None \<Rightarrow> Raised IndexError h1
                | Some r \<Rightarrow>
                    (case read_result n h1 r of
                       None \<Rightarrow> OutOfFuel
                     | Some (Inl e) \<Rightarrow> Raised e h1
                     | Some (Inr (v, c)) \<Rightarrow>
                         (let result = length h1;
                              h2 = h1 @ [Result (f v) (length rep + c)]
                          in case items_setitem h2 items index result of
                               Inl e \<Rightarrow> Raised e h2
                             | Inr h3 \<Rightarrow>
                                 (case items_delitem h3 items (index + 1) of
                                    Inl e \<Rightarrow> Raised e h3
                                  | Inr h4 \<Rightarrow> Returned index h4))))))"

text \<open>\<open>isinstance(x, Result)\<close> of what a lookup gives.\<close>

definition is_Result :: "'v obj option \<Rightarrow> bool" where
  "is_Result ob = (case ob of Some (Result v c) \<Rightarrow> True | _ \<Rightarrow> False)"

text \<open>The \<open>try\<close> block of \<open>OperatorBinary.consume\<close>: \<open>left = items[index-1]\<close> and
  \<open>right = items[index+1]\<close>, \<open>None\<close> when one of them raises the IndexError that the
  \<open>except\<close> clause catches.\<close>

definition binary_operands :: "'v heap \<Rightarrow> addr \<Rightarrow> int \<Rightarrow> (addr \<times> addr) option" where
  "binary_operands h items index =
     (case items_getitem h items (index - 1) of
        None \<Rightarrow> None
      | Some left \<Rightarrow>
          (case items_getitem h items (index + 1) of
             None \<Rightarrow> None
           | Some right \<Rightarrow> Some (left, right)))"

definition OperatorBinary_consume ::
  "'v consume_fn \<Rightarrow> nat \<Rightarrow> string \<Rightarrow> ('v \<Rightarrow> 'v \<Rightarrow> 'v) \<Rightarrow>
   'v heap \<Rightarrow> addr \<Rightarrow> int \<Rightarrow> (string \<Rightarrow> 'v) option \<Rightarrow> (int, 'v) outcome" where
  "OperatorBinary_consume consume_rec n rep f h items index func =
     (case binary_operands h items index of
        None \<Rightarrow> Raised (InvalidOperandError LeftOrRightOperandMissing None) h
      | Some (left, right) \<Rightarrow>
               (if is_Result (lookup h left) then
                  (case consume_rec h right items (index + 1) func of
                     OutOfFuel \<Rightarrow> OutOfFuel
                   | Raised e h1 \<Rightarrow> Raised e h1
                   | Returned _ h1 \<Rightarrow>
                       (case lookup h1 left of
                          Some (Result lv lc) \<Rightarrow>
                            (case items_getitem h1 items (index + 1) of
                               None \<Rightarrow> Raised IndexError h1
                             | Some r \<Rightarrow>
                                 (case read_result n h1 r of
                                    None \<Rightarrow> OutOfFuel
                                  | Some (Inl e) \<Rightarrow> Raised e h1
                                  | Some (Inr (rv, rc)) \<Rightarrow>
                                      (let result = length h1;
                                           h2 = h1 @ [Result (f lv rv) (lc + length rep + rc)]
                                       in case items_setitem h2 items index result of
                                            Inl e \<Rightarrow> Raised e h2
                                          | Inr h3 \<Rightarrow>
                                              (case items_delitem h3 items (index + 1) of
                                                 Inl e \<Rightarrow> Raised e h3
                                               | Inr h4 \<Rightarrow>
                                                   (case items_delitem h4 items (index - 1) of
                                                      Inl e \<Rightarrow> Raised e h4
                                                    | Inr h5 \<Rightarrow> Returned (index - 1) h5)))))
                        | _ \<Rightarrow> Raised AttributeError h1))
                else Raised (InvalidOperandError LeftOperandNotResult None) h))"

text \<open>The \<open>while child_i < len(self.children)\<close> loop of \<open>Group.consume\<close>, one iteration
  per unit of the fuel \<open>k\<close>; \<open>n\<close> is the fuel of the property \<open>self.consumed_length\<close>
  read by the two raise statements.\<close>

primrec Group_consume_loop ::
  "'v consume_fn \<Rightarrow> nat \<Rightarrow> nat \<Rightarrow> 'v heap \<Rightarrow> addr \<Rightarrow> int \<Rightarrow>
   (string \<Rightarrow> 'v) option \<Rightarrow> (unit, 'v) outcome" where
  "Group_consume_loop consume_rec n 0 h self child_i func = OutOfFuel"
| "Group_consume_loop consume_rec n (Suc k) h self child_i func =
     (case lookup h self of
        Some (Group parent grouping children) \<Rightarrow>
          (if child_i < int (length children) then
             (case py_getitem children child_i of
                None \<Rightarrow> Raised IndexError h
              | Some child \<Rightarrow>
                  (case consume_rec h child self child_i func of
                     OutOfFuel \<Rightarrow> OutOfFuel
                   | Raised e h1 \<Rightarrow>
                       (case e of
                          InvalidOperandError m idx \<Rightarrow>
                            (case idx of
                               None \<Rightarrow>
                                 (case consumed_length n h1 self of
                                    None \<Rightarrow> OutOfFuel
                                  | Some (Inl e') \<Rightarrow> Raised e' h1
                                  | Some (Inr cl) \<Rightarrow>
                                      Raised (InvalidOperandError (OperatorAtIndex (cl + 1))
                                                (Some (cl + 1))) h1)
                             | Some i \<Rightarrow> Raised e h1)
                        | _ \<Rightarrow> Raised e h1)
                   | Returned child_i' h1 \<Rightarrow>
                       (if child_i' \<noteq> 0 then
                          (case consumed_length n h1 self of
                             None \<Rightarrow> OutOfFuel
                           | Some (Inl e') \<Rightarrow> Raised e' h1
                           | Some (Inr cl) \<Rightarrow>
                               Raised (MissingOperatorError (OperatorMissingAfterIndex (cl + 1))
                                         (Some (cl + 1))) h1)
                        else Group_consume_loop consume_rec n k h1 self (child_i' + 1) func)))
           else Returned () h)
      | _ \<Rightarrow> Raised AttributeError h)"

text \<open>\<open>Group.consume(items, index, func)\<close>: \<open>ctx\<close> is \<open>None\<close> when \<open>items\<close> or
  \<open>index\<close> is \<open>None\<close>, and the method then returns the Result object (\<open>Inl\<close> its
  address); otherwise it returns the pair, of which \<open>Inr\<close> keeps the index.\<close>

definition Group_consume ::
  "'v consume_fn \<Rightarrow> nat \<Rightarrow> 'v heap \<Rightarrow> addr \<Rightarrow> (addr \<times> int) option \<Rightarrow>
   (string \<Rightarrow> 'v) option \<Rightarrow> (addr + int, 'v) outcome" where
  "Group_consume consume_rec n h self ctx func =
     (case Group_consume_loop consume_rec n n h self 0 func of
        OutOfFuel \<Rightarrow> OutOfFuel
      | Raised e h1 \<Rightarrow> Raised e h1
      | Returned _ h1 \<Rightarrow>
          (case lookup h1 self of
             Some (Group parent grouping children) \<Rightarrow>
               (case children of
                  [] \<Rightarrow> Raised IndexError h1
                | result # _ \<Rightarrow>
                    (case (case grouping of
                             None \<Rightarrow> Some (Inr h1)
                           | Some g \<Rightarrow>
                               (case read_result n h1 result of
                                  None \<Rightarrow> None
                                | Some (Inl e) \<Rightarrow> Some (Inl e)
                                | Some (Inr (v, c)) \<Rightarrow>
                                    Some (Inr (h1[result := Result v (c + Grouping_len g)])))) of
                       None \<Rightarrow> OutOfFuel
                     | Some (Inl e) \<Rightarrow> Raised e h1
                     | Some (Inr h2) \<Rightarrow>
                         (case ctx of
                            None \<Rightarrow> Returned (Inl result) h2
                          | Some (items, index) \<Rightarrow>
                              (case items_setitem h2 items index result of
                                 Inl e \<Rightarrow> Raised e h2
                               | Inr h3 \<Rightarrow> Returned (Inr index) h3))))
           | _ \<Rightarrow> Raised AttributeError h1))"

text \<open>\<open>x.consume(items, index, func)\<close> for the object \<open>x\<close> at \<open>self\<close>, by its class;
  \<open>Consumable.consume\<close> is what a Result inherits.\<close>

fun consume ::
  "nat \<Rightarrow> 'v heap \<Rightarrow> addr \<Rightarrow> addr \<Rightarrow> int \<Rightarrow> (string \<Rightarrow> 'v) option \<Rightarrow> (int, 'v) outcome" where
  "consume 0 h self items index func = OutOfFuel"
| "consume (Suc n) h self items index func =
     (case lookup h self of
        Some (Group p g cs) \<Rightarrow>
          (case Group_consume (consume n) n h self (Some (items, index)) func of
             OutOfFuel \<Rightarrow> OutOfFuel
           | Raised e h1 \<Rightarrow> Raised e h1
           | Returned r h1 \<Rightarrow>
               (case r of Inl res \<Rightarrow> Raised TypeError h1 | Inr i \<Rightarrow> Returned i h1))
      | Some (OperatorBinary rep f) \<Rightarrow>
          OperatorBinary_consume (consume n) n rep f h items index func
      | Some (OperatorUnary rep f) \<Rightarrow>
          OperatorUnary_consume (consume n) n rep f h items index func
      | Some (Value f v) \<Rightarrow> Value_consume h self items index func
      | Some (Result v c) \<Rightarrow> Returned index h
      | None \<Rightarrow> Raised AttributeError h)"

section \<open>Deep copies and evaluation\<close>

text \<open>\<open>copy.deepcopy(x, memo)\<close> with the \<open>__deepcopy__\<close> methods of the classes. A
  Group's copy keeps \<open>self.parent\<close> as it is and copies the children list with
  \<open>deepcopy(self.children)\<close>, which starts from a new, empty memo. A Grouping is an
  immutable value here, so its copy is itself.\<close>

primrec deepcopy_list ::
  "('v heap \<Rightarrow> (addr \<rightharpoonup> addr) \<Rightarrow> addr \<Rightarrow> ('v heap \<times> (addr \<rightharpoonup> addr) \<times> addr) option) \<Rightarrow>
   'v heap \<Rightarrow> (addr \<rightharpoonup> addr) \<Rightarrow> addr list \<Rightarrow>
   ('v heap \<times> (addr \<rightharpoonup> addr) \<times> addr list) option" where
  "deepcopy_list copy_rec h memo [] = Some (h, memo, [])"
| "deepcopy_list copy_rec h memo (a # as) =
     (case copy_rec h memo a of
        None \<Rightarrow> None
      | Some (h1, memo1, y) \<Rightarrow>
          (case deepcopy_list copy_rec h1 memo1 as of
             None \<Rightarrow> None
           | Some (h2, memo2, ys) \<Rightarrow> Some (h2, memo2, y # ys)))"

fun deepcopy ::
  "nat \<Rightarrow> 'v heap \<Rightarrow> (addr \<rightharpoonup> addr) \<Rightarrow> addr \<Rightarrow> ('v heap \<times> (addr \<rightharpoonup> addr) \<times> addr) option" where
  "deepcopy 0 h memo x = None"
| "deepcopy (Suc n) h memo x =
     (case memo x of
        Some y \<Rightarrow> Some (h, memo, y)
      | None \<Rightarrow>
          (case lookup h x of
             Some (Group parent grouping children) \<Rightarrow>
               (let copy = length h;
                    h1 = h @ [Group parent grouping []]
                in case deepcopy_list (deepcopy n) h1 Map.empty children of
                     None \<Rightarrow> None
                   | Some (h2, memo2, children') \<Rightarrow>
                       Some (h2[copy := Group parent grouping children'], memo(x \<mapsto> copy), copy))
           | Some (OperatorBinary rep f) \<Rightarrow>
               Some (h @ [OperatorBinary rep f], memo(x \<mapsto> length h), length h)
           | Some (OperatorUnary rep f) \<Rightarrow>
               Some (h @ [OperatorUnary rep f], memo(x \<mapsto> length h), length h)
           | Some (Value f v) \<Rightarrow> Some (h @ [Value f v], memo(x \<mapsto> length h), length h)
           | Some (Result v c) \<Rightarrow> Some (h @ [Result v c], memo(x \<mapsto> length h), length h)
           | None \<Rightarrow> Some (h, memo, x)))"

text \<open>\<open>Group.evaluate(func)\<close>: \<open>copy_self = deepcopy(self)\<close>, then
  \<open>copy_self.consume(func=func)\<close>, whose value it returns.\<close>

definition evaluate ::
  "nat \<Rightarrow> 'v heap \<Rightarrow> addr \<Rightarrow> (string \<Rightarrow> 'v) option \<Rightarrow> (addr + int, 'v) outcome" where
  "evaluate n h self func =
     (case deepcopy n h Map.empty self of
        None \<Rightarrow> OutOfFuel
      | Some (h1, memo, copy_self) \<Rightarrow> Group_consume (consume n) n h1 copy_self None func)"

section \<open>The parser\<close>

text \<open>A Parser holds its operators (objects of the store, appended to the tree by
  reference) and its groupings; the classes of the nodes it creates are the defaults
  \<open>Value\<close> and \<open>Group\<close>. \<open>self.evaluation_func\<close> is assigned by \<open>parse\<close> before any
  other method reads it, so the methods take it as the argument \<open>ef\<close>.\<close>

record Parser =
  operators :: "addr list"
  groupings :: "Grouping list"

text \<open>The dictionary \<open>data\<close> of \<open>parse\<close>.\<close>

record data =
  string :: string
  index :: nat
  current_group :: "addr option"
  current_value :: addr

definition isSubstringAtIndex :: "string \<Rightarrow> nat \<Rightarrow> string \<Rightarrow> bool" where
  "isSubstringAtIndex s i sub = (take (length sub) (drop i s) = sub)"

definition pushValue ::
  "(string \<Rightarrow> 'v) \<Rightarrow> 'v heap \<Rightarrow> addr option \<Rightarrow> addr \<Rightarrow> (addr, 'v) outcome" where
  "pushValue ef h grp val =
     (case lookup h val of
        Some (Value f v) \<Rightarrow>
          (let h1 = h[val := Value f (strip v)]
           in if strip v \<noteq> [] then
                (case grp of
                   None \<Rightarrow> Raised AttributeError h1
                 | Some g \<Rightarrow>
                     (case lookup h1 g of
                        Some (Group p gr cs) \<Rightarrow>
                          (let h2 = h1[g := Group p gr (cs @ [val])]
                           in Returned (length h2) (h2 @ [Value ef []]))
                      | _ \<Rightarrow> Raised AttributeError h1))
              else Returned val h1)
      | _ \<Rightarrow> Raised AttributeError h)"

text \<open>\<open>_tryConsumeGroupStart\<close>: the list is what is left of \<open>self.groupings\<close> in the
  \<open>for\<close> loop.\<close>

fun tryConsumeGroupStart ::
  "Grouping list \<Rightarrow> (string \<Rightarrow> 'v) \<Rightarrow> 'v heap \<Rightarrow> data \<Rightarrow> (bool \<times> data, 'v) outcome" where
  "tryConsumeGroupStart [] ef h d = Returned (False, d) h"
| "tryConsumeGroupStart (grouping # rest) ef h d =
     (if isSubstringAtIndex (string d) (index d) (g_start grouping) then
        (case pushValue ef h (current_group d) (current_value d) of
           OutOfFuel \<Rightarrow> OutOfFuel
         | Raised e h1 \<Rightarrow> Raised e h1
         | Returned v h1 \<Rightarrow>
             (let new_group = length h1;
                  h2 = h1 @ [Group (current_group d) (Some grouping) []]
              in case current_group d of
                   None \<Rightarrow> Raised AttributeError h2
                 | Some cg \<Rightarrow>
                     (case lookup h2 cg of
                        Some (Group p gr cs) \<Rightarrow>
                          Returned
                            (True, d\<lparr>current_value := v, current_group := Some new_group,
                                     index := index d + length (g_start grouping)\<rparr>)
                            (h2[cg := Group p gr (cs @ [new_group])])
                      | _ \<Rightarrow> Raised AttributeError h2)))
      else tryConsumeGroupStart rest ef h d)"

definition tryConsumeGroupEnd ::
  "(string \<Rightarrow> 'v) \<Rightarrow> 'v heap \<Rightarrow> data \<Rightarrow> (bool \<times> data, 'v) outcome" where
  "tryConsumeGroupEnd ef h d =
     (case current_group d of
        None \<Rightarrow> Raised AttributeError h
      | Some cg \<Rightarrow>
          (case lookup h cg of
             Some (Group p gr cs) \<Rightarrow>
               (case gr of
                  None \<Rightarrow> Returned (False, d) h
                | Some g \<Rightarrow>
                    (if isSubstringAtIndex (string d) (index d) (g_end g) then
                       (case pushValue ef h (Some cg) (current_value d) of
                          OutOfFuel \<Rightarrow> OutOfFuel
                        | Raised e h1 \<Rightarrow> Raised e h1
                        | Returned v h1 \<Rightarrow>
                            Returned
                              (True, d\<lparr>current_value := v, current_group := p,
                                       index := index d + length (g_end g)\<rparr>)
                              h1)
                     else Returned (False, d) h))
           | _ \<Rightarrow> Raised AttributeError h))"

text \<open>\<open>str(op)\<close> of an operator of the store.\<close>

definition op_str :: "'v obj option \<Rightarrow> string option" where
  "op_str ob =
     (case ob of
        Some (OperatorBinary rep f) \<Rightarrow> Some rep
      | Some (OperatorUnary rep f) \<Rightarrow> Some rep
      | _ \<Rightarrow> None)"

text \<open>\<open>_tryConsumeOperator\<close>: the list is what is left of \<open>self.operators\<close> in the
  \<open>for\<close> loop.\<close>

fun tryConsumeOperator ::
  "addr list \<Rightarrow> (string \<Rightarrow> 'v) \<Rightarrow> 'v heap \<Rightarrow> data \<Rightarrow> (bool \<times> data, 'v) outcome" where
  "tryConsumeOperator [] ef h d = Returned (False, d) h"
| "tryConsumeOperator (op # rest) ef h d =
     (case op_str (lookup h op) of
        None \<Rightarrow> Raised TypeError h
      | Some rep \<Rightarrow>
          (if isSubstringAtIndex (string d) (index d) rep then
             (case pushValue ef h (current_group d) (current_value d) of
                OutOfFuel \<Rightarrow> OutOfFuel
              | Raised e h1 \<Rightarrow> Raised e h1
              | Returned v h1 \<Rightarrow>
                  (case current_group d of
                     None \<Rightarrow> Raised AttributeError h1
                   | Some cg \<Rightarrow>
                       (case lookup h1 cg of
                          Some (Group p gr cs) \<Rightarrow>
                            Returned
                              (True, d\<lparr>current_value := v, index := index d + length rep\<rparr>)
                              (h1[cg := Group p gr (cs @ [op])])
                        | _ \<Rightarrow> Raised AttributeError h1)))
           else tryConsumeOperator rest ef h d))"

definition consumeValue :: "'v heap \<Rightarrow> data \<Rightarrow> (data, 'v) outcome" where
  "consumeValue h d =
     (case lookup h (current_value d) of
        Some (Value f v) \<Rightarrow>
          (if index d < length (string d) then
             Returned (d\<lparr>index := index d + 1\<rparr>)
               (h[current_value d := Value f (v @ [string d ! index d])])
           else Raised IndexError h)
      | _ \<Rightarrow> Raised AttributeError h)"

text \<open>The body of the \<open>while\<close> loop of \<open>parse\<close>: the three attempts in the order of the
  source, each \<open>continue\<close> ending the iteration.\<close>

definition parse_step :: "Parser \<Rightarrow> (string \<Rightarrow> 'v) \<Rightarrow> 'v heap \<Rightarrow> data \<Rightarrow> (data, 'v) outcome" where
  "parse_step P ef h d =
     (case tryConsumeGroupStart (groupings P) ef h d of
        OutOfFuel \<Rightarrow> OutOfFuel
      | Raised e h1 \<Rightarrow> Raised e h1
      | Returned r1 h1 \<Rightarrow>
          (if fst r1 then Returned (snd r1) h1
           else
             (case tryConsumeGroupEnd ef h1 (snd r1) of
                OutOfFuel \<Rightarrow> OutOfFuel
              | Raised e h2 \<Rightarrow> Raised e h2
              | Returned r2 h2 \<Rightarrow>
                  (if fst r2 then Returned (snd r2) h2
                   else
                     (case tryConsumeOperator (operators P) ef h2 (snd r2) of
                        OutOfFuel \<Rightarrow> OutOfFuel
                      | Raised e h3 \<Rightarrow> Raised e h3
                      | Returned r3 h3 \<Rightarrow>
                          (if fst r3 then Returned (snd r3) h3
                           else consumeValue h3 (snd r3)))))))"

text \<open>The \<open>while data["index"] < len(data["string"])\<close> loop, one iteration per unit of
  fuel.\<close>

fun parse_loop ::
  "nat \<Rightarrow> Parser \<Rightarrow> (string \<Rightarrow> 'v) \<Rightarrow> 'v heap \<Rightarrow> data \<Rightarrow> (data, 'v) outcome" where
  "parse_loop 0 P ef h d = OutOfFuel"
| "parse_loop (Suc n) P ef h d =
     (if index d < length (string d) then
        (case parse_step P ef h d of
           OutOfFuel \<Rightarrow> OutOfFuel
         | Raised e h1 \<Rightarrow> Raised e h1
         | Returned d1 h1 \<Rightarrow> parse_loop n P ef h1 d1)
      else Returned d h)"

text \<open>\<open>Parser.parse(string, evaluation_func)\<close> in the store \<open>h\<close>, in two parts:
  \<open>parse_scan\<close> creates the root Group (at the address \<open>length h\<close>) and the first
  pending Value and runs the loop to the end of the input; \<open>parse\<close> then pushes the last
  pending Value and returns the root.\<close>

definition parse_scan ::
  "nat \<Rightarrow> Parser \<Rightarrow> 'v heap \<Rightarrow> string \<Rightarrow> (string \<Rightarrow> 'v) \<Rightarrow> (data, 'v) outcome" where
  "parse_scan n P h s ef =
     (let root = length h;
          h1 = h @ [Group None None []];
          h2 = h1 @ [Value ef []]
      in parse_loop n P ef h2
           \<lparr>string = s, index = 0, current_group = Some root, current_value = length h1\<rparr>)"

definition parse ::
  "nat \<Rightarrow> Parser \<Rightarrow> 'v heap \<Rightarrow> string \<Rightarrow> (string \<Rightarrow> 'v) \<Rightarrow> (addr, 'v) outcome" where
  "parse n P h s ef =
     (case parse_scan n P h s ef of
        OutOfFuel \<Rightarrow> OutOfFuel
      | Raised e h3 \<Rightarrow> Raised e h3
      | Returned d' h3 \<Rightarrow>
          (case pushValue ef h3 (current_group d') (current_value d') of
             OutOfFuel \<Rightarrow> OutOfFuel
           | Raised e h4 \<Rightarrow> Raised e h4
           | Returned v h4 \<Rightarrow> Returned (length h) h4))"

section \<open>What a caller observes\<close>

text \<open>What the caller of \<open>evaluate\<close> sees: no return, the exception, or the \<open>value\<close>
  and \<open>consumed_length\<close> it reads from the returned Result (reading them from anything
  else raises AttributeError).\<close>

datatype 'v observation = NoReturn | Raises error | Yields 'v nat

definition observe :: "(addr + int, 'v) outcome \<Rightarrow> 'v observation" where
  "observe r =
     (case r of
        OutOfFuel \<Rightarrow> NoReturn
      | Raised e h \<Rightarrow> Raises e
      | Returned x h \<Rightarrow>
          (case x of
             Inl a \<Rightarrow>
               (case lookup h a of
                  Some (Result v c) \<Rightarrow> Yields v c
                | _ \<Rightarrow> Raises AttributeError)
           | Inr i \<Rightarrow> Raises AttributeError))"

text \<open>\<open>parser.parse(s, ef).evaluate(func)\<close>, observed.\<close>

definition parse_evaluate ::
  "nat \<Rightarrow> Parser \<Rightarrow> 'v heap \<Rightarrow> string \<Rightarrow> (string \<Rightarrow> 'v) \<Rightarrow> (string \<Rightarrow> 'v) option \<Rightarrow>
   'v observation" where
  "parse_evaluate n P h s ef func =
     (case parse n P h s ef of
        OutOfFuel \<Rightarrow> NoReturn
      | Raised e h1 \<Rightarrow> Raises e
      | Returned root h1 \<Rightarrow> observe (evaluate n h1 root func))"

section \<open>The example of the module's docstring\<close>

text \<open>\<open>str.lower\<close> on code points below 256, and \<open>sub in s\<close> for strings.\<close>

definition lower_char :: "char \<Rightarrow> char" where
  "lower_char c =
     (let k = (of_char c :: nat)
      in if (65 \<le> k \<and> k \<le> 90) \<or> (192 \<le> k \<and> k \<le> 222 \<and> k \<noteq> 215)
         then char_of (k + 32) else c)"

definition lower :: "string \<Rightarrow> string" where
  "lower s = map lower_char s"

fun startswith :: "string \<Rightarrow> string \<Rightarrow> bool" where
  "startswith s [] = True"
| "startswith [] (c # cs) = False"
| "startswith (d # ds) (c # cs) = (d = c \<and> startswith ds cs)"

fun str_in :: "string \<Rightarrow> string \<Rightarrow> bool" where
  "str_in sub [] = (sub = [])"
| "str_in sub (c # cs) = (startswith (c # cs) sub \<or> str_in sub cs)"

text \<open>\<open>opAnd\<close>, \<open>opOr\<close> and \<open>opNot\<close> at the addresses 0, 1 and 2 of the store, the parser
  made of them and of the grouping \<open>Grouping("(", ")")\<close>, and the filter string.\<close>

definition example_store :: "bool heap" where
  "example_store =
     [OperatorBinary ''&&'' (\<lambda>a b. a \<and> b), OperatorBinary ''||'' (\<lambda>a b. a \<or> b),
      OperatorUnary ''!'' (\<lambda>a. \<not> a)]"

definition example_parser :: Parser where
  "example_parser = \<lparr>operators = [0, 1, 2], groupings = [Grouping ''('' '')'']\<rparr>"

definition artists_filter :: string where
  "artists_filter = ''marley && (stephen && !(ziggy || damian) || bob)''"

text \<open>The evaluation function of \<open>songInFilterValue(song)\<close>:
  \<open>lambda parser_value: parser_value in song.lower()\<close>.\<close>

definition song_filter :: "string \<Rightarrow> string \<Rightarrow> bool" where
  "song_filter song parser_value = str_in parser_value (lower song)"

section \<open>The tokenizer as the specification words it\<close>

text \<open>
  The specification's tokenizer, for comparison with \<open>parse\<close>: at each index the first
  match wins among (1) the first configured Grouping whose start string matches,
  (2) the end string of the current Group's Grouping, (3) the first configured Operator
  whose representation matches; otherwise (4) the current character joins the pending
  Value. Flushing the pending Value trims it; an empty one is discarded (the pending
  buffer is empty again), another one becomes a child of the current Group and a fresh
  empty Value takes its place.
\<close>

definition spec_flush :: "(string \<Rightarrow> 'v) \<Rightarrow> 'v heap \<Rightarrow> addr \<Rightarrow> addr \<Rightarrow> 'v heap \<times> addr" where
  "spec_flush ef h cg cv =
     (case lookup h cv of
        Some (Value f v) \<Rightarrow>
          (if strip v = [] then (h[cv := Value f []], cv)
           else
             (case lookup h cg of
                Some (Group p gr cs) \<Rightarrow>
                  (h[cv := Value f (strip v), cg := Group p gr (cs @ [cv])] @ [Value ef []],
                   length h)
              | _ \<Rightarrow> (h, cv)))
      | _ \<Rightarrow> (h, cv))"

definition spec_add_child :: "'v heap \<Rightarrow> addr \<Rightarrow> addr \<Rightarrow> 'v heap" where
  "spec_add_child h cg x =
     (case lookup h cg of
        Some (Group p gr cs) \<Rightarrow> h[cg := Group p gr (cs @ [x])]
      | _ \<Rightarrow> h)"

text \<open>The parent and the end string of a Group that has a Grouping.\<close>

definition spec_group_end :: "'v heap \<Rightarrow> addr \<Rightarrow> (addr option \<times> string) option" where
  "spec_group_end h cg =
     (case lookup h cg of
        Some (Group p (Some g) cs) \<Rightarrow> Some (p, g_end g)
      | _ \<Rightarrow> None)"

definition spec_op_matches :: "'v heap \<Rightarrow> string \<Rightarrow> nat \<Rightarrow> addr \<Rightarrow> bool" where
  "spec_op_matches h s i op =
     (case op_str (lookup h op) of
        Some rep \<Rightarrow> isSubstringAtIndex s i rep
      | None \<Rightarrow> False)"

definition spec_step :: "Parser \<Rightarrow> (string \<Rightarrow> 'v) \<Rightarrow> 'v heap \<Rightarrow> data \<Rightarrow> data \<times> 'v heap" where
  "spec_step P ef h d =
     (let s = string d; i = index d; cv = current_value d
      in case current_group d of
           None \<Rightarrow> (d, h)
         | Some cg \<Rightarrow>
             (case find (\<lambda>g. isSubstringAtIndex s i (g_start g)) (groupings P) of
                Some g \<Rightarrow>
                  (let fl = spec_flush ef h cg cv;
                       new = length (fst fl);
                       h2 = fst fl @ [Group (Some cg) (Some g) []]
                   in (d\<lparr>index := i + length (g_start g), current_group := Some new,
                          current_value := snd fl\<rparr>,
                       spec_add_child h2 cg new))
              | None \<Rightarrow>
                  (case (case spec_group_end h cg of
                           Some (p, e) \<Rightarrow> if isSubstringAtIndex s i e then Some (p, e) else None
                         | None \<Rightarrow> None) of
                     Some (p, e) \<Rightarrow>
                       (let fl = spec_flush ef h cg cv
                        in (d\<lparr>index := i + length e, current_group := p,
                               current_value := snd fl\<rparr>,
                            fst fl))
                   | None \<Rightarrow>
                       (case find (spec_op_matches h s i) (operators P) of
                          Some op \<Rightarrow>
                            (let fl = spec_flush ef h cg cv
                             in (d\<lparr>index := i + length (the (op_str (lookup h op))),
                                    current_value := snd fl\<rparr>,
                                 spec_add_child (fst fl) cg op))
                        | None \<Rightarrow>
                            (case lookup h cv of
                               Some (Value f v) \<Rightarrow>
                                 (d\<lparr>index := i + 1\<rparr>, h[cv := Value f (v @ [s ! i])])
                             | _ \<Rightarrow> (d, h))))))"

fun spec_loop ::
  "nat \<Rightarrow> Parser \<Rightarrow> (string \<Rightarrow> 'v) \<Rightarrow> 'v heap \<Rightarrow> data \<Rightarrow> (data \<times> 'v heap) option" where
  "spec_loop 0 P ef h d = None"
| "spec_loop (Suc n) P ef h d =
     (if index d < length (string d) then
        spec_loop n P ef (snd (spec_step P ef h d)) (fst (spec_step P ef h d))
      else Some (d, h))"

definition spec_parse ::
  "nat \<Rightarrow> Parser \<Rightarrow> 'v heap \<Rightarrow> string \<Rightarrow> (string \<Rightarrow> 'v) \<Rightarrow> (addr, 'v) outcome" where
  "spec_parse n P h s ef =
     (let root = length h;
          h2 = h @ [Group None None [], Value ef []]
      in case spec_loop n P ef h2
                \<lparr>string = s, index = 0, current_group = Some root,
                 current_value = Suc root\<rparr> of
           None \<Rightarrow> OutOfFuel
         | Some (d, h3) \<Rightarrow>
             (case current_group d of
                None \<Rightarrow> Returned root h3
              | Some cg \<Rightarrow> Returned root (fst (spec_flush ef h3 cg (current_value d)))))"

section \<open>Well-formed stores\<close>

text \<open>The addresses an object holds, and stores in which every one of them is an
  object of the store.\<close>

definition refs :: "'v obj \<Rightarrow> addr set" where
  "refs ob = (case ob of Group p g cs \<Rightarrow> set_option p \<union> set cs | _ \<Rightarrow> {})"

definition closed :: "'v heap \<Rightarrow> bool" where
  "closed h = (\<forall>a < length h. \<forall>r \<in> refs (h ! a). r < length h)"

text \<open>The operators of a Parser are Operator objects of the store.\<close>

definition wf_ops :: "Parser \<Rightarrow> 'v heap \<Rightarrow> bool" where
  "wf_ops P h = (\<forall>op \<in> set (operators P). op_str (lookup h op) \<noteq> None)"

text \<open>\<open>chain h root k g\<close>: the Group \<open>g\<close> is nested \<open>k\<close> levels below the root Group,
  each Group on the way framed by a Grouping, pointing to its parent and listed among
  its parent's children.\<close>

inductive chain :: "'v heap \<Rightarrow> addr \<Rightarrow> nat \<Rightarrow> addr \<Rightarrow> bool" where
  chain_root: "lookup h root = Some (Group None None cs) \<Longrightarrow> chain h root 0 root"
| chain_child:
    "chain h root k p \<Longrightarrow> lookup h p = Some (Group pp pg pcs) \<Longrightarrow> g \<in> set pcs \<Longrightarrow>
     lookup h g = Some (Group (Some p) (Some gr) cs) \<Longrightarrow> chain h root (Suc k) g"

text \<open>The state of the \<open>while\<close> loop of \<open>parse\<close> that every iteration keeps.\<close>

definition parse_inv :: "Parser \<Rightarrow> addr \<Rightarrow> 'v heap \<Rightarrow> data \<Rightarrow> nat \<Rightarrow> bool" where
  "parse_inv P root h d k =
     (closed h \<and> wf_ops P h \<and> index d \<le> length (string d) \<and>
      (\<exists>f v. lookup h (current_value d) = Some (Value f v)) \<and>
      (\<exists>cg. current_group d = Some cg \<and> chain h root k cg))"

text \<open>What the parser does to a store: it allocates, appends to children lists and
  rewrites the text of Values; parents, groupings and operators stay.\<close>

definition grows :: "'v heap \<Rightarrow> 'v heap \<Rightarrow> bool" where
  "grows h h' =
     (length h \<le> length h' \<and>
      (\<forall>a p g cs. lookup h a = Some (Group p g cs) \<longrightarrow>
         (\<exists>cs'. lookup h' a = Some (Group p g (cs @ cs')))) \<and>
      (\<forall>a f v. lookup h a = Some (Value f v) \<longrightarrow> (\<exists>f' v'. lookup h' a = Some (Value f' v'))) \<and>
      (\<forall>a rep. op_str (lookup h a) = Some rep \<longrightarrow> op_str (lookup h' a) = Some rep))"

text \<open>No grouping start and no operator representation is the empty string.\<close>

definition nonempty_tokens :: "Parser \<Rightarrow> 'v heap \<Rightarrow> bool" where
  "nonempty_tokens P h =
     ((\<forall>g \<in> set (groupings P). g_start g \<noteq> []) \<and>
      (\<forall>op \<in> set (operators P). op_str (lookup h op) \<noteq> Some []))"

section \<open>What a reduction may change\<close>

text \<open>\<open>fresh_inv m h\<close>: the objects from the address \<open>m\<close> on are the objects made since
  some moment (the start of an \<open>evaluate\<close>), and the Groups among them list only such
  objects as children. \<open>preserves m h h'\<close>: from \<open>h\<close> to \<open>h'\<close> no object below \<open>m\<close> has
  changed. \<open>frame_ok\<close> says so of the store an outcome carries.\<close>

definition fresh_inv :: "nat \<Rightarrow> 'v heap \<Rightarrow> bool" where
  "fresh_inv m h =
     (m \<le> length h \<and>
      (\<forall>a p g cs. m \<le> a \<longrightarrow> lookup h a = Some (Group p g cs) \<longrightarrow> (\<forall>c \<in> set cs. m \<le> c)))"

definition preserves :: "nat \<Rightarrow> 'v heap \<Rightarrow> 'v heap \<Rightarrow> bool" where
  "preserves m h h' = (fresh_inv m h' \<and> take m h' = take m h)"

definition frame_ok :: "nat \<Rightarrow> 'v heap \<Rightarrow> ('a, 'v) outcome \<Rightarrow> bool" where
  "frame_ok m h r =
     (case r of
        OutOfFuel \<Rightarrow> True
      | Raised e h' \<Rightarrow> preserves m h h'
      | Returned x h' \<Rightarrow> preserves m h h')"

section \<open>Two runs on stores that differ by other objects\<close>

text \<open>
  Addresses depend on what was allocated before. To compare a run on a store \<open>hA\<close>
  with a run on a store \<open>hB\<close> that holds \<open>k\<close> more objects after the first \<open>m\<close>, the
  addresses from \<open>m\<close> on are shifted by \<open>k\<close>: \<open>sim\<close> relates the stores, \<open>sim_out\<close>
  the outcomes of two calls, \<open>ret_rel\<close> what \<open>Group.consume\<close> returns, \<open>memo_rel\<close> and
  \<open>copy_rel\<close> the memos and results of \<open>deepcopy\<close>.
\<close>

definition shift :: "nat \<Rightarrow> nat \<Rightarrow> addr \<Rightarrow> addr" where
  "shift m k a = (if a < m then a else a + k)"

definition shift_obj :: "nat \<Rightarrow> nat \<Rightarrow> 'v obj \<Rightarrow> 'v obj" where
  "shift_obj m k ob =
     (case ob of
        Group p g cs \<Rightarrow> Group (map_option (shift m k) p) g (map (shift m k) cs)
      | _ \<Rightarrow> ob)"

definition sim :: "nat \<Rightarrow> nat \<Rightarrow> 'v heap \<Rightarrow> 'v heap \<Rightarrow> bool" where
  "sim m k hA hB =
     (m \<le> length hA \<and> length hB = length hA + k \<and>
      (\<forall>a < length hA. hB ! shift m k a = shift_obj m k (hA ! a)))"

definition sim_out ::
  "nat \<Rightarrow> nat \<Rightarrow> ('a \<Rightarrow> 'b \<Rightarrow> bool) \<Rightarrow> ('a, 'v) outcome \<Rightarrow> ('b, 'v) outcome \<Rightarrow> bool" where
  "sim_out m k R rA rB =
     (case rA of
        OutOfFuel \<Rightarrow> rB = OutOfFuel
      | Raised e hA \<Rightarrow> (\<exists>hB. rB = Raised e hB \<and> sim m k hA hB)
      | Returned x hA \<Rightarrow> (\<exists>y hB. rB = Returned y hB \<and> R x y \<and> sim m k hA hB))"

definition ret_rel :: "nat \<Rightarrow> nat \<Rightarrow> addr + int \<Rightarrow> addr + int \<Rightarrow> bool" where
  "ret_rel m k x y = (y = map_sum (shift m k) id x)"

definition memo_rel :: "nat \<Rightarrow> nat \<Rightarrow> (addr \<rightharpoonup> addr) \<Rightarrow> (addr \<rightharpoonup> addr) \<Rightarrow> bool" where
  "memo_rel m k memoA memoB = (\<forall>a. memoB (shift m k a) = map_option (shift m k) (memoA a))"

definition copy_rel ::
  "nat \<Rightarrow> nat \<Rightarrow> ('v heap \<times> (addr \<rightharpoonup> addr) \<times> addr) option \<Rightarrow>
   ('v heap \<times> (addr \<rightharpoonup> addr) \<times> addr) option \<Rightarrow> bool" where
  "copy_rel m k rA rB =
     (case rA of
        None \<Rightarrow> rB = None
      | Some (hA, memoA, y) \<Rightarrow>
          (\<exists>hB memoB. rB = Some (hB, memoB, shift m k y) \<and> sim m k hA hB \<and>
             memo_rel m k memoA memoB))"

section \<open>Deep copies as a relation on the store\<close>

text \<open>\<open>deep_copy m k h x y\<close>: in the store \<open>h\<close> the object \<open>y\<close> is a deep copy of the
  object \<open>x\<close>. The original is one of the first \<open>m\<close> objects, the copy was made from
  the address \<open>k\<close> on; an operator, a Value or a Result has the fields of its original;
  a Group has the parent and the grouping of its original, and its children are deep
  copies of the original's children, one for one and in their order. \<open>memo_copies\<close>:
  every entry of a memo of \<open>deepcopy\<close> sends an object to a deep copy of it.\<close>

inductive deep_copy :: "nat \<Rightarrow> nat \<Rightarrow> 'v heap \<Rightarrow> addr \<Rightarrow> addr \<Rightarrow> bool" for m k h where
  deep_copy_leaf:
    "x < m \<Longrightarrow> k \<le> y \<Longrightarrow> lookup h x = Some ob \<Longrightarrow> lookup h y = Some ob \<Longrightarrow>
     \<forall>p g cs. ob \<noteq> Group p g cs \<Longrightarrow> deep_copy m k h x y"
| deep_copy_Group:
    "x < m \<Longrightarrow> k \<le> y \<Longrightarrow> lookup h x = Some (Group p g cs) \<Longrightarrow>
     lookup h y = Some (Group p g cs') \<Longrightarrow> list_all2 (deep_copy m k h) cs cs' \<Longrightarrow>
     deep_copy m k h x y"

definition memo_copies :: "nat \<Rightarrow> nat \<Rightarrow> 'v heap \<Rightarrow> (addr \<rightharpoonup> addr) \<Rightarrow> bool" where
  "memo_copies m k h memo = (\<forall>a b. memo a = Some b \<longrightarrow> deep_copy m k h a b)"

section \<open>Evaluations at concrete inputs\<close>

text \<open>
  C2. The end-to-end scenario of the docstring: with the operators \<open>&&\<close>, \<open>||\<close>, \<open>!\<close>
  and the grouping \<open>( )\<close>, parsing \<open>marley && (stephen && !(ziggy || damian) || bob)\<close>
  and evaluating it with the function that tells whether a value token occurs in the
  lower-cased song title yields the value True for \<open>Bob Marley - Jammin\<close> and the value
  False for \<open>Duane Stephenson - Exhale\<close> (whatever default evaluation function the
  parse was given; the consumed length is 40 both times). The same holds when the
  evaluation function lower-cases and trims the token itself before the test.
\<close>

theorem docstring_example_filter:
  "parse_evaluate 100 example_parser example_store artists_filter ef
     (Some (song_filter ''Bob Marley - Jammin'')) = Yields True 40 \<and>
   parse_evaluate 100 example_parser example_store artists_filter ef
     (Some (song_filter ''Duane Stephenson - Exhale'')) = Yields False 40 \<and>
   parse_evaluate 100 example_parser example_store artists_filter ef
     (Some (\<lambda>token. song_filter ''Bob Marley - Jammin'' (strip (lower token)))) =
     Yields True 40 \<and>
   parse_evaluate 100 example_parser example_store artists_filter ef
     (Some (\<lambda>token. song_filter ''Duane Stephenson - Exhale'' (strip (lower token)))) =
     Yields False 40"
  by code_simp

text \<open>
  C1. The consumed length is not the number of characters of the source: the
  whitespace that \<open>_pushValue\<close> strips from a value is not counted. The 13 characters of
  \<open>marley && bob\<close> reduce to a Result of consumed length 11.
\<close>

theorem consumed_length_drops_whitespace:
  "parse_evaluate 100 example_parser example_store ''marley && bob'' ef
     (Some (song_filter ''Bob Marley - Jammin'')) = Yields True 11 \<and>
   length ''marley && bob'' = 13"
  by code_simp

text \<open>
  C4. A binary operator with no right operand: in \<open>a && b &&\<close> the second \<open>&&\<close> stands
  at offset 7 of the 9 characters; the InvalidOperandError that reaches the caller
  carries the index 5.
\<close>

theorem missing_operand_index_off:
  "parse_evaluate 100 example_parser example_store ''a && b &&'' ef None =
     Raises (InvalidOperandError (OperatorAtIndex 5) (Some 5))"
  by code_simp

text \<open>Without any whitespace, inside a group: the \<open>&&\<close> of \<open>(a&&)\<close> stands at offset 2,
  the error carries 4. The clone's parent is the original root, whose first child is
  not the clone, so the property \<open>consumed_length\<close> of the clone adds the lengths of all
  the original children. When one of them is an empty group, the property itself
  raises, and the caller receives an IndexError.\<close>

lemma missing_operand_in_group_index_off:
  "parse_evaluate 100 example_parser example_store ''(a&&)'' ef None =
     Raises (InvalidOperandError (OperatorAtIndex 4) (Some 4))"
  by code_simp

lemma missing_operand_becomes_IndexError:
  "parse_evaluate 100 example_parser example_store ''(a&&)()'' ef None = Raises IndexError"
  by code_simp

text \<open>
  C6. Two adjacent operands in a nested group: in \<open>((a)(b))\<close> the first operand \<open>(a)\<close>
  ends at offset 3, so the operator is missing at offset 4; the MissingOperatorError
  carries the index 7.
\<close>

theorem missing_operator_index_off:
  "parse_evaluate 100 example_parser example_store ''((a)(b))'' ef None =
     Raises (MissingOperatorError (OperatorMissingAfterIndex 7) (Some 7))"
  by code_simp

text \<open>At the root, with whitespace: the first operand \<open>( a )\<close> of \<open>( a ) (b)\<close> ends at
  offset 4; the error carries 4, one more than the consumed length 3 of \<open>(a)\<close>.\<close>

lemma missing_operator_whitespace_index_off:
  "parse_evaluate 100 example_parser example_store ''( a ) (b)'' ef None =
     Raises (MissingOperatorError (OperatorMissingAfterIndex 4) (Some 4))"
  by code_simp

section \<open>Binary operators and their operands\<close>

text \<open>
  C5. When \<open>OperatorBinary.consume\<close> runs and its left neighbour \<open>items[index-1]\<close>
  exists but is not a Result, it raises InvalidOperandError: "Left operand is not a
  Result object" when the right neighbour exists too, "Left or right operand is
  missing" otherwise. The store is as it was, whatever the operator function: the
  function is not applied and the right operand is not consumed.
\<close>

theorem binary_left_not_reduced:
  assumes "lookup h self = Some (OperatorBinary rep f)"
    and "items_getitem h items (idx - 1) = Some left"
    and "\<not> is_Result (lookup h left)"
  shows "consume (Suc n) h self items idx func =
           Raised (InvalidOperandError
                     (if items_getitem h items (idx + 1) = None
                      then LeftOrRightOperandMissing else LeftOperandNotResult) None) h"
  using assms
  by (auto simp: OperatorBinary_consume_def binary_operands_def split: option.splits)

theorem binary_left_not_reduced_witness:
  "consume (Suc 0)
     [Group None None [1, 2, 3], OperatorUnary ''!'' (\<lambda>a. \<not> a),
      OperatorBinary ''&&'' (\<lambda>a b. a \<and> b), Value (\<lambda>s. True) ''b'']
     2 0 1 None =
   Raised (InvalidOperandError LeftOperandNotResult None)
     [Group None None [1, 2, 3], OperatorUnary ''!'' (\<lambda>a. \<not> a),
      OperatorBinary ''&&'' (\<lambda>a b. a \<and> b), Value (\<lambda>s. True) ''b'']"
proof -
  let ?h = "[Group None None [1, 2, 3], OperatorUnary ''!'' (\<lambda>a. \<not> a),
      OperatorBinary ''&&'' (\<lambda>a b. a \<and> b), Value (\<lambda>s. True) ''b''] :: bool heap"
  have a: "lookup ?h 2 = Some (OperatorBinary ''&&'' (\<lambda>a b. a \<and> b))"
    by (simp add: lookup_def)
  have b: "items_getitem ?h 0 (1 - 1) = Some 1"
    by (simp add: items_getitem_def lookup_def py_getitem_def py_norm_def)
  have c: "\<not> is_Result (lookup ?h 1)"
    by (simp add: is_Result_def lookup_def)
  have d: "items_getitem ?h 0 (1 + 1) \<noteq> None"
    by (simp add: items_getitem_def lookup_def py_getitem_def py_norm_def)
  from binary_left_not_reduced [OF a b c, of 0 None] d show ?thesis
    by simp
qed

lemma py_getitem_nonneg:
  "0 \<le> i \<Longrightarrow> py_getitem xs i = (if i < int (length xs) then Some (xs ! nat i) else None)"
  by (simp add: py_getitem_def py_norm_def)

lemma py_getitem_minus_one:
  "py_getitem xs (- 1) = (if xs = [] then None else Some (last xs))"
  by (cases xs rule: rev_cases) (simp_all add: py_getitem_def py_norm_def)

text \<open>
  C9. For an index inside the child list, the lookup \<open>items[index-1]\<close> never fails, so
  the "Left or right operand is missing" branch is taken exactly when \<open>index+1\<close> is past
  the end of the list. At index 0 of a list of at least two children the operands are
  the last child (Python's \<open>items[-1]\<close>) and the second one, and an operator whose
  last child is not a Result raises "Left operand is not a Result object".
\<close>

theorem binary_missing_branch:
  assumes "lookup h items = Some (Group p g cs)"
    and "0 \<le> idx" and "idx < int (length cs)"
  shows "(binary_operands h items idx = None \<longleftrightarrow> int (length cs) \<le> idx + 1) \<and>
         (idx = 0 \<and> 2 \<le> length cs \<longrightarrow>
            binary_operands h items idx = Some (last cs, cs ! 1) \<and>
            (\<forall>self rep f n func. lookup h self = Some (OperatorBinary rep f) \<longrightarrow>
               \<not> is_Result (lookup h (last cs)) \<longrightarrow>
               consume (Suc n) h self items idx func =
                 Raised (InvalidOperandError LeftOperandNotResult None) h))"
proof -
  have left: "items_getitem h items (idx - 1) \<noteq> None"
  proof (cases "idx = 0")
    case True
    with assms show ?thesis by (simp add: items_getitem_def py_getitem_minus_one)
  next
    case False
    with assms show ?thesis by (simp add: items_getitem_def py_getitem_nonneg)
  qed
  have right: "items_getitem h items (idx + 1) = None \<longleftrightarrow> int (length cs) \<le> idx + 1"
    using assms by (simp add: items_getitem_def py_getitem_nonneg)
  have one: "binary_operands h items idx = None \<longleftrightarrow> int (length cs) \<le> idx + 1"
    using left right by (auto simp: binary_operands_def split: option.splits)
  have two: "binary_operands h items 0 = Some (last cs, cs ! 1)" if "2 \<le> length cs"
    using that assms(1)
    by (auto simp: binary_operands_def items_getitem_def py_getitem_minus_one py_getitem_nonneg)
  show ?thesis
    using one two by (auto simp: OperatorBinary_consume_def)
qed

theorem binary_missing_branch_witness:
  "binary_operands
     [Group None None [1, 2, 3], OperatorBinary ''&&'' (\<lambda>a b. a \<and> b),
      Value (\<lambda>s. True) ''a'', Value (\<lambda>s. True) ''b''] 0 0 = Some (3, 2) \<and>
   (case consume (Suc 0)
     [Group None None [1, 2, 3], OperatorBinary ''&&'' (\<lambda>a b. a \<and> b),
      Value (\<lambda>s. True) ''a'', Value (\<lambda>s. True) ''b''] 1 0 0 None of
      Raised e h \<Rightarrow> e = InvalidOperandError LeftOperandNotResult None
    | _ \<Rightarrow> False)"
proof -
  let ?h = "[Group None None [1, 2, 3], OperatorBinary ''&&'' (\<lambda>a b. a \<and> b),
      Value (\<lambda>s. True) ''a'', Value (\<lambda>s. True) ''b''] :: bool heap"
  have a: "lookup ?h 0 = Some (Group None None [1, 2, 3])"
    by (simp add: lookup_def)
  have b: "(0::int) \<le> 0" by simp
  have c: "(0::int) < int (length [1, 2, 3 :: nat])" by simp
  have d: "lookup ?h 1 = Some (OperatorBinary ''&&'' (\<lambda>a b. a \<and> b))"
    by (simp add: lookup_def)
  have e: "\<not> is_Result (lookup ?h (last [1, 2, 3]))"
    by (simp add: lookup_def is_Result_def)
  from binary_missing_branch [OF a b c] d e show ?thesis
    by simp
qed

section \<open>The tokenizer\<close>

lemma lookup_Some_iff: "lookup h a = Some ob \<longleftrightarrow> a < length h \<and> h ! a = ob"
  by (auto simp: lookup_def)

lemma lookup_update: "lookup (h[a := ob]) b = (if b = a \<and> a < length h then Some ob else lookup h b)"
  by (auto simp: lookup_def)

lemma lookup_append: "lookup (h @ [ob]) b = (if b = length h then Some ob else lookup h b)"
  by (auto simp: lookup_def nth_append)

lemma lookup_length [simp]: "lookup h (length h) = None"
  by (simp add: lookup_def)

lemma lookup_lt: "lookup h a = Some ob \<Longrightarrow> a < length h"
  by (simp add: lookup_Some_iff)

lemma pushValue_spec_flush:
  assumes "lookup h cv = Some (Value f v)" and "lookup h cg = Some (Group p gr cs)"
  shows "pushValue ef h (Some cg) cv =
           Returned (snd (spec_flush ef h cg cv)) (fst (spec_flush ef h cg cv))"
proof -
  from assms have ne: "cg \<noteq> cv" by auto
  show ?thesis
  proof (cases "strip v = []")
    case True
    with assms show ?thesis by (simp add: pushValue_def spec_flush_def Let_def)
  next
    case False
    with assms ne show ?thesis
      by (simp add: pushValue_def spec_flush_def Let_def lookup_update)
  qed
qed

lemma tryConsumeGroupStart_find:
  assumes "lookup h cv = Some (Value f v)" and "lookup h cg = Some (Group p gr cs)"
    and "current_group d = Some cg" and "current_value d = cv"
  shows "tryConsumeGroupStart gs ef h d =
     (case find (\<lambda>g. isSubstringAtIndex (string d) (index d) (g_start g)) gs of
        None \<Rightarrow> Returned (False, d) h
      | Some g \<Rightarrow>
          Returned (True, d\<lparr>index := index d + length (g_start g),
                           current_group := Some (length (fst (spec_flush ef h cg cv))),
                           current_value := snd (spec_flush ef h cg cv)\<rparr>)
            (spec_add_child (fst (spec_flush ef h cg cv) @ [Group (Some cg) (Some g) []]) cg
               (length (fst (spec_flush ef h cg cv)))))"
proof (induction gs)
  case Nil
  show ?case by simp
next
  case (Cons g gs)
  have grp: "\<exists>cs'. lookup (fst (spec_flush ef h cg cv)) cg = Some (Group p gr cs')"
    using assms(1,2) by (auto simp: spec_flush_def lookup_update lookup_append dest: lookup_lt)
  then obtain cs' where cs': "lookup (fst (spec_flush ef h cg cv)) cg = Some (Group p gr cs')"
    by blast
  then have lt: "cg < length (fst (spec_flush ef h cg cv))" by (simp add: lookup_Some_iff)
  show ?case
  proof (cases "isSubstringAtIndex (string d) (index d) (g_start g)")
    case True
    then show ?thesis
      using assms(3,4) pushValue_spec_flush [OF assms(1,2), of ef] cs' lt
      by (simp add: Let_def lookup_append spec_add_child_def)
  next
    case False
    then show ?thesis using Cons.IH by simp
  qed
qed


lemma spec_flush_group:
  assumes "lookup h cv = Some (Value f v)" and "lookup h cg = Some (Group p gr cs)"
  shows "\<exists>cs'. lookup (fst (spec_flush ef h cg cv)) cg = Some (Group p gr (cs @ cs'))"
  using assms by (auto simp: spec_flush_def lookup_update lookup_append dest: lookup_lt)

lemma tryConsumeGroupEnd_spec:
  assumes "lookup h cv = Some (Value f v)" and "lookup h cg = Some (Group p gr cs)"
    and "current_group d = Some cg" and "current_value d = cv"
  shows "tryConsumeGroupEnd ef h d =
     (case (case spec_group_end h cg of
              Some (p, e) \<Rightarrow>
                if isSubstringAtIndex (string d) (index d) e then Some (p, e) else None
            | None \<Rightarrow> None) of
        None \<Rightarrow> Returned (False, d) h
      | Some (p, e) \<Rightarrow>
          Returned (True, d\<lparr>index := index d + length e, current_group := p,
                           current_value := snd (spec_flush ef h cg cv)\<rparr>)
            (fst (spec_flush ef h cg cv)))"
  using assms pushValue_spec_flush [OF assms(1,2), of ef]
  by (cases gr) (simp_all add: tryConsumeGroupEnd_def spec_group_end_def)

lemma tryConsumeOperator_find:
  assumes "lookup h cv = Some (Value f v)" and "lookup h cg = Some (Group p gr cs)"
    and "current_group d = Some cg" and "current_value d = cv"
    and "\<forall>op \<in> set ops. op_str (lookup h op) \<noteq> None"
  shows "tryConsumeOperator ops ef h d =
     (case find (spec_op_matches h (string d) (index d)) ops of
        None \<Rightarrow> Returned (False, d) h
      | Some op \<Rightarrow>
          Returned (True, d\<lparr>index := index d + length (the (op_str (lookup h op))),
                           current_value := snd (spec_flush ef h cg cv)\<rparr>)
            (spec_add_child (fst (spec_flush ef h cg cv)) cg op))"
  using assms(5)
proof (induction ops)
  case Nil
  show ?case by simp
next
  case (Cons op ops)
  then obtain rep where rep: "op_str (lookup h op) = Some rep" by auto
  obtain cs' where cs': "lookup (fst (spec_flush ef h cg cv)) cg = Some (Group p gr (cs @ cs'))"
    using spec_flush_group [OF assms(1,2)] by blast
  show ?case
  proof (cases "isSubstringAtIndex (string d) (index d) rep")
    case True
    then show ?thesis
      using rep assms(3,4) pushValue_spec_flush [OF assms(1,2), of ef] cs'
      by (simp add: spec_op_matches_def spec_add_child_def)
  next
    case False
    then show ?thesis using rep Cons by (simp add: spec_op_matches_def)
  qed
qed

lemma parse_step_spec:
  assumes "lookup h (current_value d) = Some (Value f v)"
    and "current_group d = Some cg" and "lookup h cg = Some (Group p gr cs)"
    and "wf_ops P h" and "index d < length (string d)"
  shows "parse_step P ef h d = Returned (fst (spec_step P ef h d)) (snd (spec_step P ef h d))"
proof -
  have ops: "\<forall>op \<in> set (operators P). op_str (lookup h op) \<noteq> None"
    using assms(4) by (simp add: wf_ops_def)
  note gs = tryConsumeGroupStart_find [OF assms(1,3,2) refl, of "groupings P" ef]
  note ge = tryConsumeGroupEnd_spec [OF assms(1,3,2) refl, of ef]
  note go = tryConsumeOperator_find [OF assms(1,3,2) refl ops, of ef]
  show ?thesis
    unfolding parse_step_def spec_step_def gs
    using assms(1,2,5)
    by (simp add: ge go consumeValue_def Let_def split: option.splits prod.splits)
qed


lemma grows_Group:
  "grows h h' \<Longrightarrow> lookup h a = Some (Group p g cs) \<Longrightarrow>
   \<exists>cs'. lookup h' a = Some (Group p g (cs @ cs'))"
  unfolding grows_def by blast

lemma grows_Value:
  "grows h h' \<Longrightarrow> lookup h a = Some (Value f v) \<Longrightarrow> \<exists>f' v'. lookup h' a = Some (Value f' v')"
  unfolding grows_def by blast

lemma grows_op_str:
  "grows h h' \<Longrightarrow> op_str (lookup h a) = Some rep \<Longrightarrow> op_str (lookup h' a) = Some rep"
  unfolding grows_def by blast

lemma grows_length: "grows h h' \<Longrightarrow> length h \<le> length h'"
  by (simp add: grows_def)

lemma grows_refl: "grows h h"
  by (simp add: grows_def)

lemma grows_trans:
  assumes a: "grows h1 h2" and b: "grows h2 h3"
  shows "grows h1 h3"
  unfolding grows_def
proof (intro conjI allI impI)
  show "length h1 \<le> length h3" using grows_length [OF a] grows_length [OF b] by simp
next
  fix x p g cs assume "lookup h1 x = Some (Group p g cs)"
  from grows_Group [OF a this] obtain cs' where "lookup h2 x = Some (Group p g (cs @ cs'))"
    by blast
  from grows_Group [OF b this] show "\<exists>cs'. lookup h3 x = Some (Group p g (cs @ cs'))"
    by (metis append.assoc)
next
  fix x f v assume "lookup h1 x = Some (Value f v)"
  from grows_Value [OF a this] obtain f' v' where "lookup h2 x = Some (Value f' v')" by blast
  from grows_Value [OF b this] show "\<exists>f' v'. lookup h3 x = Some (Value f' v')" .
next
  fix x rep assume "op_str (lookup h1 x) = Some rep"
  from grows_op_str [OF b grows_op_str [OF a this]] show "op_str (lookup h3 x) = Some rep" .
qed

lemma op_str_Some_cases:
  "op_str ob = Some rep \<longleftrightarrow>
     (\<exists>f. ob = Some (OperatorBinary rep f)) \<or> (\<exists>f. ob = Some (OperatorUnary rep f))"
  by (auto simp: op_str_def split: option.splits obj.splits)

lemma grows_update_Value:
  "lookup h a = Some (Value f v) \<Longrightarrow> grows h (h[a := Value f' v'])"
  unfolding grows_def by (auto simp: lookup_update op_str_Some_cases)

lemma grows_update_Group:
  "lookup h a = Some (Group p g cs) \<Longrightarrow> grows h (h[a := Group p g (cs @ xs)])"
  unfolding grows_def by (auto simp: lookup_update op_str_Some_cases)

lemma grows_append: "grows h (h @ [ob])"
  unfolding grows_def by (auto simp: lookup_append op_str_Some_cases dest: lookup_lt)

lemma wf_ops_grows: "grows h h' \<Longrightarrow> wf_ops P h \<Longrightarrow> wf_ops P h'"
  unfolding wf_ops_def using grows_op_str by fastforce

lemma chain_grows: "chain h root k g \<Longrightarrow> grows h h' \<Longrightarrow> chain h' root k g"
proof (induction rule: chain.induct)
  case (chain_root h root cs)
  then show ?case using grows_Group chain.chain_root by fastforce
next
  case (chain_child h root k p pp pg pcs g gr cs)
  from grows_Group [OF chain_child.prems chain_child.hyps(2)]
  obtain pcs' where p: "lookup h' p = Some (Group pp pg (pcs @ pcs'))" by blast
  from grows_Group [OF chain_child.prems chain_child.hyps(4)]
  obtain cs' where g: "lookup h' g = Some (Group (Some p) (Some gr) (cs @ cs'))" by blast
  from chain_child.hyps(3) have "g \<in> set (pcs @ pcs')" by simp
  with chain.chain_child [OF chain_child.IH [OF chain_child.prems] p _ g] show ?case by blast
qed

lemma chain_Group: "chain h root k g \<Longrightarrow> \<exists>p gr cs. lookup h g = Some (Group p gr cs)"
  by (induction rule: chain.induct) auto

lemma chain_parent:
  assumes "chain h root k g" and "lookup h g = Some (Group p (Some gr) cs)"
  shows "\<exists>q k'. p = Some q \<and> k = Suc k' \<and> chain h root k' q \<and>
           (\<exists>pp pg pcs. lookup h q = Some (Group pp pg pcs) \<and> g \<in> set pcs)"
  using assms by (cases rule: chain.cases) auto

lemma refs_simps [simp]:
  "refs (Group p g cs) = set_option p \<union> set cs"
  "refs (Value f v) = {}"
  "refs (Result x c) = {}"
  "refs (OperatorBinary rep bf) = {}"
  "refs (OperatorUnary rep uf) = {}"
  by (simp_all add: refs_def)

lemma closedD: "closed h \<Longrightarrow> lookup h a = Some ob \<Longrightarrow> r \<in> refs ob \<Longrightarrow> r < length h"
  by (auto simp: closed_def lookup_Some_iff)

lemma closedI:
  "(\<And>a ob r. lookup h a = Some ob \<Longrightarrow> r \<in> refs ob \<Longrightarrow> r < length h) \<Longrightarrow> closed h"
  by (auto simp: closed_def lookup_Some_iff)

lemma closed_update_Value: "closed h \<Longrightarrow> closed (h[a := Value f v])"
proof (rule closedI)
  fix b ob r
  assume c: "closed h" and l: "lookup (h[a := Value f v]) b = Some ob" and r: "r \<in> refs ob"
  show "r < length (h[a := Value f v])"
  proof (cases "b = a \<and> a < length h")
    case True
    with l r show ?thesis by (auto simp: lookup_update)
  next
    case False
    with l have "lookup h b = Some ob" by (simp add: lookup_update)
    from closedD [OF c this r] show ?thesis by simp
  qed
qed

lemma closed_update_Group:
  assumes c: "closed h" and g: "lookup h a = Some (Group p g cs)"
    and xs: "\<forall>x \<in> set xs. x < length h"
  shows "closed (h[a := Group p g (cs @ xs)])"
proof (rule closedI)
  fix b ob r
  assume l: "lookup (h[a := Group p g (cs @ xs)]) b = Some ob" and r: "r \<in> refs ob"
  show "r < length (h[a := Group p g (cs @ xs)])"
  proof (cases "b = a \<and> a < length h")
    case True
    with l have "ob = Group p g (cs @ xs)" by (simp add: lookup_update)
    with r have "r \<in> refs (Group p g cs) \<or> r \<in> set xs" by auto
    with closedD [OF c g] xs show ?thesis by auto
  next
    case False
    with l have "lookup h b = Some ob" by (simp add: lookup_update)
    from closedD [OF c this r] show ?thesis by simp
  qed
qed

lemma closed_append:
  assumes c: "closed h" and ob: "\<forall>r \<in> refs ob. r \<le> length h"
  shows "closed (h @ [ob])"
proof (rule closedI)
  fix b ob' r
  assume l: "lookup (h @ [ob]) b = Some ob'" and r: "r \<in> refs ob'"
  show "r < length (h @ [ob])"
  proof (cases "b = length h")
    case True
    with l r ob show ?thesis by (auto simp: lookup_append less_Suc_eq_le)
  next
    case False
    with l have "lookup h b = Some ob'" by (simp add: lookup_append)
    from closedD [OF c this r] show ?thesis by simp
  qed
qed


lemma spec_flush_props:
  assumes v: "lookup h cv = Some (Value f v)" and g: "lookup h cg = Some (Group p gr cs)"
    and c: "closed h"
  shows "grows h (fst (spec_flush ef h cg cv))"
    and "closed (fst (spec_flush ef h cg cv))"
    and "\<exists>f' v'. lookup (fst (spec_flush ef h cg cv)) (snd (spec_flush ef h cg cv)) = Some (Value f' v')"
proof -
  have ne: "cg \<noteq> cv" using v g by auto
  let ?h1 = "h[cv := Value f (strip v)]"
  have g1: "lookup ?h1 cg = Some (Group p gr cs)" using g ne by (simp add: lookup_update)
  let ?h2 = "?h1[cg := Group p gr (cs @ [cv])]"
  have gr1: "grows h ?h1" by (rule grows_update_Value [OF v])
  have gr2: "grows ?h1 ?h2" by (rule grows_update_Group [OF g1])
  have gr3: "grows ?h2 (?h2 @ [Value ef []])" by (rule grows_append)
  have c1: "closed ?h1" by (rule closed_update_Value [OF c])
  have c2: "closed ?h2"
    by (rule closed_update_Group [OF c1 g1]) (use v in \<open>auto dest: lookup_lt\<close>)
  have c3: "closed (?h2 @ [Value ef []])" by (rule closed_append [OF c2]) simp
  show "grows h (fst (spec_flush ef h cg cv))"
  proof (cases "strip v = []")
    case True
    then show ?thesis using v grows_update_Value [OF v, of f "[]"] by (simp add: spec_flush_def)
  next
    case False
    then show ?thesis
      using v g grows_trans [OF gr1 grows_trans [OF gr2 gr3]] by (simp add: spec_flush_def)
  qed
  show "closed (fst (spec_flush ef h cg cv))"
  proof (cases "strip v = []")
    case True
    then show ?thesis using v closed_update_Value [OF c, of cv f "[]"] by (simp add: spec_flush_def)
  next
    case False
    then show ?thesis using v g c3 by (simp add: spec_flush_def)
  qed
  show "\<exists>f' v'. lookup (fst (spec_flush ef h cg cv)) (snd (spec_flush ef h cg cv)) = Some (Value f' v')"
  proof (cases "strip v = []")
    case True
    then show ?thesis using v by (auto simp: spec_flush_def lookup_update dest: lookup_lt)
  next
    case False
    then show ?thesis using v g by (simp add: spec_flush_def lookup_append)
  qed
qed

lemma spec_add_child_props:
  assumes g: "lookup h cg = Some (Group p gr cs)" and c: "closed h" and x: "x < length h"
  shows "grows h (spec_add_child h cg x)"
    and "closed (spec_add_child h cg x)"
    and "lookup (spec_add_child h cg x) cg = Some (Group p gr (cs @ [x]))"
proof -
  show "grows h (spec_add_child h cg x)"
    using g grows_update_Group [OF g, of "[x]"] by (simp add: spec_add_child_def)
  show "closed (spec_add_child h cg x)"
    using g closed_update_Group [OF c g, of "[x]"] x by (simp add: spec_add_child_def)
  show "lookup (spec_add_child h cg x) cg = Some (Group p gr (cs @ [x]))"
    using g by (auto simp: spec_add_child_def lookup_update dest: lookup_lt)
qed

lemma isSubstringAtIndex_length:
  "isSubstringAtIndex s i sub \<Longrightarrow> i \<le> length s \<Longrightarrow> i + length sub \<le> length s"
proof -
  assume a: "isSubstringAtIndex s i sub" and b: "i \<le> length s"
  from a have "length (take (length sub) (drop i s)) = length sub"
    by (simp add: isSubstringAtIndex_def)
  then show ?thesis using b by simp
qed


lemma nonempty_tokens_grows:
  assumes "grows h h'" and "wf_ops P h" and "nonempty_tokens P h"
  shows "nonempty_tokens P h'"
  unfolding nonempty_tokens_def
proof (intro conjI ballI)
  fix g assume "g \<in> set (groupings P)"
  with assms(3) show "g_start g \<noteq> []" by (simp add: nonempty_tokens_def)
next
  fix op assume op: "op \<in> set (operators P)"
  with assms(2) obtain rep where rep: "op_str (lookup h op) = Some rep"
    by (auto simp: wf_ops_def)
  with assms(3) op have "rep \<noteq> []" by (auto simp: nonempty_tokens_def)
  with grows_op_str [OF assms(1) rep] show "op_str (lookup h' op) \<noteq> Some []" by simp
qed

lemma spec_step_inv:
  assumes inv: "parse_inv P root h d k" and lt: "index d < length (string d)"
  shows "\<exists>k'. parse_inv P root (snd (spec_step P ef h d)) (fst (spec_step P ef h d)) k' \<and>
           string (fst (spec_step P ef h d)) = string d \<and>
           grows h (snd (spec_step P ef h d)) \<and>
           (nonempty_tokens P h \<longrightarrow>
              2 * (length (string d) - index (fst (spec_step P ef h d))) + k' <
              2 * (length (string d) - index d) + k)"
proof -
  from inv obtain cg f v where c: "closed h" and w: "wf_ops P h"
    and cv: "lookup h (current_value d) = Some (Value f v)"
    and cg: "current_group d = Some cg" and ch: "chain h root k cg"
    by (auto simp: parse_inv_def)
  from chain_Group [OF ch] obtain p gr cs where g: "lookup h cg = Some (Group p gr cs)"
    by blast
  let ?s = "string d" and ?i = "index d" and ?cv = "current_value d"
  let ?fl = "spec_flush ef h cg ?cv"
  note fl = spec_flush_props [OF cv g c, of ef]
  from grows_Group [OF fl(1) g] obtain cs1 where
    g1: "lookup (fst ?fl) cg = Some (Group p gr (cs @ cs1))" by blast
  from fl(3) obtain f1 v1 where v1: "lookup (fst ?fl) (snd ?fl) = Some (Value f1 v1)" by blast
  show ?thesis
  proof (cases "find (\<lambda>g. isSubstringAtIndex ?s ?i (g_start g)) (groupings P)")
    case (Some g0)
    let ?new = "length (fst ?fl)"
    let ?h2 = "fst ?fl @ [Group (Some cg) (Some g0) []]"
    let ?h3 = "spec_add_child ?h2 cg ?new"
    let ?d' = "d\<lparr>index := ?i + length (g_start g0), current_group := Some ?new,
                  current_value := snd ?fl\<rparr>"
    have step: "spec_step P ef h d = (?d', ?h3)"
      using Some cg by (simp add: spec_step_def Let_def)
    have m: "isSubstringAtIndex ?s ?i (g_start g0)"
      using Some by (auto simp: find_Some_iff)
    have g2: "lookup ?h2 cg = Some (Group p gr (cs @ cs1))"
      using g1 by (auto simp: lookup_append dest: lookup_lt)
    have c2: "closed ?h2"
      by (rule closed_append [OF fl(2)]) (use g1 in \<open>auto dest: lookup_lt\<close>)
    note ac = spec_add_child_props [OF g2 c2, of ?new]
    have gr: "grows h ?h3"
      using grows_trans [OF fl(1) grows_trans [OF grows_append ac(1)]] by simp
    have "lookup ?h2 ?new = Some (Group (Some cg) (Some g0) [])" by (simp add: lookup_append)
    from grows_Group [OF ac(1) this] obtain csn where
      newg: "lookup ?h3 ?new = Some (Group (Some cg) (Some g0) csn)" by auto
    have ch3: "chain ?h3 root (Suc k) ?new"
      by (rule chain.chain_child [OF chain_grows [OF ch gr] ac(3) _ newg]) simp_all
    have v3: "\<exists>f' v'. lookup ?h3 (snd ?fl) = Some (Value f' v')"
    proof -
      have "lookup ?h2 (snd ?fl) = Some (Value f1 v1)"
        using v1 by (auto simp: lookup_append dest: lookup_lt)
      from grows_Value [OF ac(1) this] show ?thesis by simp
    qed
    have "parse_inv P root ?h3 ?d' (Suc k)"
      unfolding parse_inv_def
      using ac(2) wf_ops_grows [OF gr w] isSubstringAtIndex_length [OF m] lt v3 ch3
      by simp
    moreover have "g0 \<in> set (groupings P)" using Some by (auto simp: find_Some_iff in_set_conv_nth)
    then have "nonempty_tokens P h \<longrightarrow> g_start g0 \<noteq> []" by (auto simp: nonempty_tokens_def)
    then have "nonempty_tokens P h \<longrightarrow>
        2 * (length ?s - (?i + length (g_start g0))) + Suc k < 2 * (length ?s - ?i) + k"
      using isSubstringAtIndex_length [OF m] lt by (cases "g_start g0") auto
    ultimately show ?thesis using step gr by auto
  next
    case None
    show ?thesis
    proof (cases "case spec_group_end h cg of
                    Some (p, e) \<Rightarrow> if isSubstringAtIndex ?s ?i e then Some (p, e) else None
                  | None \<Rightarrow> None")
      case (Some pe)
      obtain p' e where pe: "pe = (p', e)" by (cases pe)
      let ?d' = "d\<lparr>index := ?i + length e, current_group := p', current_value := snd ?fl\<rparr>"
      have step: "spec_step P ef h d = (?d', fst ?fl)"
        using None Some cg pe by (simp add: spec_step_def Let_def)
      from Some pe obtain g0 where gr0: "gr = Some g0" and p': "p' = p" and e: "e = g_end g0"
        and m: "isSubstringAtIndex ?s ?i e"
        using g by (auto simp: spec_group_end_def split: option.splits if_splits)
      from chain_parent [OF ch g [unfolded gr0]] obtain q k' where
        q: "p = Some q" "k = Suc k'" "chain h root k' q" by blast
      have "parse_inv P root (fst ?fl) ?d' k'"
        unfolding parse_inv_def
        using fl(2) wf_ops_grows [OF fl(1) w] isSubstringAtIndex_length [OF m] lt fl(3)
          chain_grows [OF q(3) fl(1)] p' q(1)
        by simp
      moreover have "2 * (length ?s - (?i + length e)) + k' < 2 * (length ?s - ?i) + k"
        using q(2) by simp
      ultimately show ?thesis using step fl(1) by auto
    next
      case None2: None
      show ?thesis
      proof (cases "find (spec_op_matches h ?s ?i) (operators P)")
        case (Some op)
        let ?h3 = "spec_add_child (fst ?fl) cg op"
        let ?d' = "d\<lparr>index := ?i + length (the (op_str (lookup h op))),
                      current_value := snd ?fl\<rparr>"
        have step: "spec_step P ef h d = (?d', ?h3)"
          using None None2 Some cg by (simp add: spec_step_def Let_def)
        from Some obtain rep where rep: "op_str (lookup h op) = Some rep"
          and m: "isSubstringAtIndex ?s ?i rep"
          by (auto simp: find_Some_iff spec_op_matches_def split: option.splits)
        have "op < length h" using rep by (auto simp: op_str_Some_cases dest: lookup_lt)
        then have opl: "op < length (fst ?fl)" using grows_length [OF fl(1)] by simp
        note ac = spec_add_child_props [OF g1 fl(2) opl]
        have gr: "grows h ?h3" by (rule grows_trans [OF fl(1) ac(1)])
        have v3: "\<exists>f' v'. lookup ?h3 (snd ?fl) = Some (Value f' v')"
          using grows_Value [OF ac(1) v1] by simp
        have "parse_inv P root ?h3 ?d' k"
          unfolding parse_inv_def
          using ac(2) wf_ops_grows [OF gr w] isSubstringAtIndex_length [OF m] lt v3
            chain_grows [OF ch gr] cg rep
          by simp
        moreover have "op \<in> set (operators P)"
          using Some by (auto simp: find_Some_iff in_set_conv_nth)
        then have "nonempty_tokens P h \<longrightarrow> rep \<noteq> []"
          using rep by (auto simp: nonempty_tokens_def)
        then have "nonempty_tokens P h \<longrightarrow>
            2 * (length ?s - (?i + length rep)) + k < 2 * (length ?s - ?i) + k"
          using isSubstringAtIndex_length [OF m] lt by (cases rep) auto
        ultimately show ?thesis using step gr rep by auto
      next
        case None3: None
        let ?h3 = "h[?cv := Value f (v @ [?s ! ?i])]"
        let ?d' = "d\<lparr>index := ?i + 1\<rparr>"
        have step: "spec_step P ef h d = (?d', ?h3)"
          using None None2 None3 cg cv by (simp add: spec_step_def Let_def)
        have gr: "grows h ?h3" by (rule grows_update_Value [OF cv])
        have "parse_inv P root ?h3 ?d' k"
          unfolding parse_inv_def
          using closed_update_Value [OF c] wf_ops_grows [OF gr w] lt cv
            chain_grows [OF ch gr] cg
          by (auto simp: lookup_update dest: lookup_lt)
        moreover have "2 * (length ?s - (?i + 1)) + k < 2 * (length ?s - ?i) + k"
          using lt by simp
        ultimately show ?thesis using step gr by auto
      qed
    qed
  qed
qed


lemma parse_loop_spec:
  assumes "parse_inv P root h d k"
  shows "parse_loop n P ef h d =
           (case spec_loop n P ef h d of None \<Rightarrow> OutOfFuel | Some (d', h') \<Rightarrow> Returned d' h')"
  using assms
proof (induction n arbitrary: h d k)
  case 0
  show ?case by simp
next
  case (Suc n)
  show ?case
  proof (cases "index d < length (string d)")
    case True
    from Suc.prems obtain cg f v where cv: "lookup h (current_value d) = Some (Value f v)"
      and cg: "current_group d = Some cg" and ch: "chain h root k cg" and w: "wf_ops P h"
      by (auto simp: parse_inv_def)
    from chain_Group [OF ch] obtain p gr cs where g: "lookup h cg = Some (Group p gr cs)"
      by blast
    from spec_step_inv [OF Suc.prems True, of ef] obtain k' where
      "parse_inv P root (snd (spec_step P ef h d)) (fst (spec_step P ef h d)) k'" by blast
    from Suc.IH [OF this] parse_step_spec [OF cv cg g w True, of ef] True
    show ?thesis by simp
  next
    case False
    then show ?thesis by simp
  qed
qed

lemma spec_loop_inv:
  assumes "parse_inv P root h d k" and "spec_loop n P ef h d = Some (d', h')"
  shows "\<exists>k'. parse_inv P root h' d' k' \<and> grows h h' \<and> string d' = string d \<and>
           length (string d') \<le> index d'"
  using assms
proof (induction n arbitrary: h d k)
  case 0
  then show ?case by simp
next
  case (Suc n)
  show ?case
  proof (cases "index d < length (string d)")
    case True
    from spec_step_inv [OF Suc.prems(1) True, of ef] obtain k1 where
      i1: "parse_inv P root (snd (spec_step P ef h d)) (fst (spec_step P ef h d)) k1"
      and s1: "string (fst (spec_step P ef h d)) = string d"
      and g1: "grows h (snd (spec_step P ef h d))" by blast
    from Suc.prems(2) True have
      "spec_loop n P ef (snd (spec_step P ef h d)) (fst (spec_step P ef h d)) = Some (d', h')"
      by simp
    from Suc.IH [OF i1 this] s1 g1 show ?thesis using grows_trans by fastforce
  next
    case False
    with Suc.prems show ?thesis using grows_refl by auto
  qed
qed

lemma spec_loop_terminates:
  assumes "parse_inv P root h d k" and "nonempty_tokens P h"
    and "2 * (length (string d) - index d) + k < n"
  shows "spec_loop n P ef h d \<noteq> None"
  using assms
proof (induction n arbitrary: h d k)
  case 0
  then show ?case by simp
next
  case (Suc n)
  show ?case
  proof (cases "index d < length (string d)")
    case True
    from spec_step_inv [OF Suc.prems(1) True, of ef] Suc.prems(2) obtain k1 where
      i1: "parse_inv P root (snd (spec_step P ef h d)) (fst (spec_step P ef h d)) k1"
      and s1: "string (fst (spec_step P ef h d)) = string d"
      and g1: "grows h (snd (spec_step P ef h d))"
      and m1: "2 * (length (string d) - index (fst (spec_step P ef h d))) + k1 <
               2 * (length (string d) - index d) + k" by blast
    have w: "wf_ops P h" using Suc.prems(1) by (simp add: parse_inv_def)
    have ne: "nonempty_tokens P (snd (spec_step P ef h d))"
      by (rule nonempty_tokens_grows [OF g1 w Suc.prems(2)])
    have "2 * (length (string (fst (spec_step P ef h d))) - index (fst (spec_step P ef h d))) + k1 < n"
      using m1 s1 Suc.prems(3) by simp
    from Suc.IH [OF i1 ne this] True show ?thesis by simp
  next
    case False
    then show ?thesis by simp
  qed
qed

lemma parse_inv_init:
  assumes "closed h" and "wf_ops P h"
  shows "parse_inv P (length h) (h @ [Group None None [], Value ef []])
           \<lparr>string = s, index = 0, current_group = Some (length h),
            current_value = Suc (length h)\<rparr> 0"
proof -
  let ?h1 = "h @ [Group None None []]"
  have c1: "closed ?h1" by (rule closed_append [OF assms(1)]) simp
  have c2: "closed (?h1 @ [Value ef []])" by (rule closed_append [OF c1]) simp
  have g: "grows h (?h1 @ [Value ef []])"
    by (rule grows_trans [OF grows_append grows_append])
  have ch: "chain (?h1 @ [Value ef []]) (length h) 0 (length h)"
    by (rule chain.chain_root [where cs = "[]"]) (simp add: lookup_def nth_append)
  show ?thesis
    unfolding parse_inv_def
    using c2 wf_ops_grows [OF g assms(2)] ch
    by (simp add: lookup_def nth_append)
qed

lemma parse_spec_parse:
  assumes "closed h" and "wf_ops P h"
  shows "parse n P h s ef = spec_parse n P h s ef"
proof -
  let ?h2 = "h @ [Group None None [], Value ef []]"
  let ?d = "\<lparr>string = s, index = 0, current_group = Some (length h),
            current_value = Suc (length h)\<rparr>"
  note i0 = parse_inv_init [OF assms, of ef s]
  have scan: "parse_scan n P h s ef =
      (case spec_loop n P ef ?h2 ?d of None \<Rightarrow> OutOfFuel | Some (d', h') \<Rightarrow> Returned d' h')"
    using parse_loop_spec [OF i0, of n ef] by (simp add: parse_scan_def Let_def)
  show ?thesis
  proof (cases "spec_loop n P ef ?h2 ?d")
    case None
    then show ?thesis using scan by (simp add: parse_def spec_parse_def Let_def)
  next
    case (Some r)
    obtain d' h' where r: "r = (d', h')" by (cases r)
    from spec_loop_inv [OF i0 Some [unfolded r]] obtain k' where
      inv: "parse_inv P (length h) h' d' k'" by blast
    then obtain cg f v where cv: "lookup h' (current_value d') = Some (Value f v)"
      and cg: "current_group d' = Some cg" and ch: "chain h' (length h) k' cg"
      by (auto simp: parse_inv_def)
    from chain_Group [OF ch] obtain p gr cs where g: "lookup h' cg = Some (Group p gr cs)"
      by blast
    show ?thesis
      using scan Some r cg pushValue_spec_flush [OF cv g, of ef]
      by (simp add: parse_def spec_parse_def Let_def)
  qed
qed

lemma closed_example_store: "closed example_store"
  by (simp add: closed_def example_store_def less_Suc_eq numeral_3_eq_3)

lemma wf_ops_example: "wf_ops example_parser example_store"
  by (simp add: wf_ops_def example_parser_def example_store_def lookup_def op_str_def)

text \<open>
  C7. On a store whose references are its own objects and with a Parser whose operators
  are Operator objects, \<open>parse\<close> is the tokenizer of the specification: at each index
  group starts are tried first (first listed Grouping first), then the end of the
  current Group, then the operators in their listed order, otherwise the character
  joins the pending Value and the index advances by one; at the end of the input the
  pending Value is flushed and the root Group is returned. The two agree for every
  amount of fuel, also where the loop does not end.
\<close>

theorem parse_refines_spec:
  assumes "closed h" and "wf_ops P h"
  shows "parse n P h s ef = spec_parse n P h s ef"
  using assms by (rule parse_spec_parse)

theorem parse_refines_spec_witness:
  "parse 20 example_parser example_store ''(a)&&b'' (\<lambda>s. True) =
     spec_parse 20 example_parser example_store ''(a)&&b'' (\<lambda>s. True) \<and>
   (case spec_parse 20 example_parser example_store ''(a)&&b'' (\<lambda>s. True) of
      Returned root h \<Rightarrow>
        root = 3 \<and>
        (case lookup h 3 of Some (Group p g cs) \<Rightarrow> cs = [5, 0, 6] | _ \<Rightarrow> False)
    | _ \<Rightarrow> False)"
proof -
  have "parse 20 example_parser example_store ''(a)&&b'' (\<lambda>s. True) =
     spec_parse 20 example_parser example_store ''(a)&&b'' (\<lambda>s. True)"
    by (rule parse_refines_spec [OF closed_example_store wf_ops_example])
  moreover have "case spec_parse 20 example_parser example_store ''(a)&&b'' (\<lambda>s. True) of
      Returned root h \<Rightarrow>
        root = 3 \<and>
        (case lookup h 3 of Some (Group p g cs) \<Rightarrow> cs = [5, 0, 6] | _ \<Rightarrow> False)
    | _ \<Rightarrow> False"
    by code_simp
  ultimately show ?thesis by simp
qed

lemma chain_not_root:
  assumes "chain h root k g" and "g \<noteq> root"
  shows "\<exists>p gr cs pp pg pcs k'. lookup h g = Some (Group (Some p) (Some gr) cs) \<and>
           lookup h p = Some (Group pp pg pcs) \<and> g \<in> set pcs \<and> chain h root k' p"
  using assms by (cases rule: chain.cases) auto

text \<open>
  C8. When the loop of \<open>parse\<close> reaches the end of the input while the current Group is
  not the root, \<open>parse\<close> raises nothing: it returns the root, and the current Group is
  still a Group framed by its Grouping, listed among the children of its parent, which
  is the root or nested below it.
\<close>

theorem unclosed_group_returned:
  assumes "closed h" and "wf_ops P h"
    and "parse_scan n P h s ef = Returned d h3"
    and "current_group d \<noteq> Some (length h)"
  shows "\<exists>h4 cg p gr cs pp pg pcs k.
           parse n P h s ef = Returned (length h) h4 \<and>
           current_group d = Some cg \<and>
           lookup h4 cg = Some (Group (Some p) (Some gr) cs) \<and>
           lookup h4 p = Some (Group pp pg pcs) \<and> cg \<in> set pcs \<and>
           chain h4 (length h) k p"
proof -
  let ?h2 = "h @ [Group None None [], Value ef []]"
  let ?d = "\<lparr>string = s, index = 0, current_group = Some (length h),
            current_value = Suc (length h)\<rparr>"
  note i0 = parse_inv_init [OF assms(1,2), of ef s]
  have "parse_scan n P h s ef =
      (case spec_loop n P ef ?h2 ?d of None \<Rightarrow> OutOfFuel | Some (d', h') \<Rightarrow> Returned d' h')"
    using parse_loop_spec [OF i0, of n ef] by (simp add: parse_scan_def Let_def)
  with assms(3) have sl: "spec_loop n P ef ?h2 ?d = Some (d, h3)"
    by (auto split: option.splits)
  from spec_loop_inv [OF i0 sl] obtain k' where inv: "parse_inv P (length h) h3 d k'" by blast
  then obtain cg f v where cv: "lookup h3 (current_value d) = Some (Value f v)"
    and cg: "current_group d = Some cg" and ch: "chain h3 (length h) k' cg"
    and c3: "closed h3"
    by (auto simp: parse_inv_def)
  from cg assms(4) have ne: "cg \<noteq> length h" by simp
  from chain_not_root [OF ch ne] obtain p gr cs pp pg pcs k where
    g: "lookup h3 cg = Some (Group (Some p) (Some gr) cs)"
    and p: "lookup h3 p = Some (Group pp pg pcs)" and m: "cg \<in> set pcs"
    and chp: "chain h3 (length h) k p" by blast
  let ?fl = "spec_flush ef h3 cg (current_value d)"
  note fl = spec_flush_props [OF cv g c3, of ef]
  have res: "parse n P h s ef = Returned (length h) (fst ?fl)"
    using assms(3) cg pushValue_spec_flush [OF cv g, of ef] by (simp add: parse_def)
  from grows_Group [OF fl(1) g] obtain cs' where
    g4: "lookup (fst ?fl) cg = Some (Group (Some p) (Some gr) (cs @ cs'))" by blast
  from grows_Group [OF fl(1) p] obtain pcs' where
    p4: "lookup (fst ?fl) p = Some (Group pp pg (pcs @ pcs'))" by blast
  from m have m4: "cg \<in> set (pcs @ pcs')" by simp
  from res cg g4 p4 m4 chain_grows [OF chp fl(1)] show ?thesis by blast
qed

theorem unclosed_group_returned_witness:
  "\<exists>h4 p gr cs pp pg pcs k.
     parse 20 example_parser example_store ''(a'' (\<lambda>s. True) = Returned 3 h4 \<and>
     lookup h4 5 = Some (Group (Some p) (Some gr) cs) \<and>
     lookup h4 p = Some (Group pp pg pcs) \<and> 5 \<in> set pcs \<and> chain h4 3 k p"
proof -
  have "case parse_scan 20 example_parser example_store ''(a'' (\<lambda>s. True) of
          Returned d h \<Rightarrow> current_group d = Some 5
        | _ \<Rightarrow> False"
    by code_simp
  then obtain d h3 where
    scan: "parse_scan 20 example_parser example_store ''(a'' (\<lambda>s. True) = Returned d h3"
    and cg: "current_group d = Some 5"
    by (auto split: outcome.splits)
  have len: "length example_store = 3"
    by (simp add: example_store_def)
  have ne: "current_group d \<noteq> Some (length example_store)"
    using cg len by simp
  from unclosed_group_returned [OF closed_example_store wf_ops_example scan ne] cg
  show ?thesis unfolding len by simp
qed

text \<open>\<open>parse\<close> never raises, and it returns when no grouping start and no operator
  representation is empty: \<open>2 * length s + 1\<close> iterations are enough.\<close>

lemma parse_never_raises:
  assumes "closed h" and "wf_ops P h"
  shows "parse n P h s ef \<noteq> Raised e h'"
  unfolding parse_spec_parse [OF assms]
  by (simp add: spec_parse_def Let_def split: option.splits prod.splits)

lemma parse_terminates:
  assumes "closed h" and "wf_ops P h" and "nonempty_tokens P h" and "2 * length s < n"
  shows "\<exists>h'. parse n P h s ef = Returned (length h) h'"
proof -
  let ?h2 = "h @ [Group None None [], Value ef []]"
  let ?d = "\<lparr>string = s, index = 0, current_group = Some (length h),
            current_value = Suc (length h)\<rparr>"
  note i0 = parse_inv_init [OF assms(1,2), of ef s]
  have "grows h ?h2"
    using grows_trans [OF grows_append grows_append, of h "Group None None []" "Value ef []"]
    by simp
  from nonempty_tokens_grows [OF this assms(2,3)] have ne: "nonempty_tokens P ?h2" .
  have "spec_loop n P ef ?h2 ?d \<noteq> None"
    by (rule spec_loop_terminates [OF i0 ne]) (use assms(4) in simp)
  then show ?thesis
    unfolding parse_spec_parse [OF assms(1,2)]
    by (auto simp: spec_parse_def Let_def split: option.splits)
qed

section \<open>The frame of a reduction\<close>

lemma preserves_refl: "fresh_inv m h \<Longrightarrow> preserves m h h"
  by (simp add: preserves_def)

lemma preserves_trans: "preserves m h h1 \<Longrightarrow> preserves m h1 h2 \<Longrightarrow> preserves m h h2"
  by (simp add: preserves_def)

lemma preserves_fresh: "preserves m h h' \<Longrightarrow> fresh_inv m h'"
  by (simp add: preserves_def)

lemma fresh_child:
  "fresh_inv m h \<Longrightarrow> m \<le> a \<Longrightarrow> lookup h a = Some (Group p g cs) \<Longrightarrow> c \<in> set cs \<Longrightarrow> m \<le> c"
  unfolding fresh_inv_def by blast

lemma preserves_update:
  assumes f: "fresh_inv m h" and a: "m \<le> a"
    and ob: "\<And>p g cs c. ob = Group p g cs \<Longrightarrow> c \<in> set cs \<Longrightarrow> m \<le> c"
  shows "preserves m h (h[a := ob])"
  unfolding preserves_def fresh_inv_def
proof (intro conjI allI impI ballI)
  show "m \<le> length (h[a := ob])" using f by (simp add: fresh_inv_def)
next
  fix b p g cs c
  assume b: "m \<le> b" and l: "lookup (h[a := ob]) b = Some (Group p g cs)" and c: "c \<in> set cs"
  show "m \<le> c"
  proof (cases "b = a \<and> a < length h")
    case True
    with l have "ob = Group p g cs" by (simp add: lookup_update)
    from ob [OF this c] show ?thesis .
  next
    case False
    with l have "lookup h b = Some (Group p g cs)" by (simp add: lookup_update)
    from fresh_child [OF f b this c] show ?thesis .
  qed
next
  show "take m (h[a := ob]) = take m h" using a by simp
qed

lemma preserves_append:
  assumes f: "fresh_inv m h"
    and ob: "\<And>p g cs c. ob = Group p g cs \<Longrightarrow> c \<in> set cs \<Longrightarrow> m \<le> c"
  shows "preserves m h (h @ [ob])"
  unfolding preserves_def fresh_inv_def
proof (intro conjI allI impI ballI)
  show "m \<le> length (h @ [ob])" using f by (simp add: fresh_inv_def)
next
  fix b p g cs c
  assume b: "m \<le> b" and l: "lookup (h @ [ob]) b = Some (Group p g cs)" and c: "c \<in> set cs"
  show "m \<le> c"
  proof (cases "b = length h")
    case True
    with l have "ob = Group p g cs" by (simp add: lookup_append)
    from ob [OF this c] show ?thesis .
  next
    case False
    with l have "lookup h b = Some (Group p g cs)" by (simp add: lookup_append)
    from fresh_child [OF f b this c] show ?thesis .
  qed
next
  show "take m (h @ [ob]) = take m h" using f by (simp add: fresh_inv_def)
qed

lemma py_setitem_set: "py_setitem cs i x = Some cs' \<Longrightarrow> set cs' \<subseteq> insert x (set cs)"
  by (auto simp: py_setitem_def split: option.splits dest: subsetD [OF set_update_subset_insert])

lemma py_delitem_set: "py_delitem cs i = Some cs' \<Longrightarrow> set cs' \<subseteq> set cs"
  by (auto simp: py_delitem_def split: option.splits dest: in_set_takeD in_set_dropD)

lemma py_getitem_set: "py_getitem cs i = Some c \<Longrightarrow> c \<in> set cs"
  by (auto simp: py_getitem_def py_norm_def Let_def split: option.splits if_splits)

lemma items_getitem_fresh:
  "fresh_inv m h \<Longrightarrow> m \<le> items \<Longrightarrow> items_getitem h items i = Some c \<Longrightarrow> m \<le> c"
  by (auto simp: items_getitem_def split: option.splits obj.splits
      dest: py_getitem_set fresh_child)

lemma items_setitem_preserves:
  assumes f: "fresh_inv m h" and i: "m \<le> items" and x: "m \<le> x"
    and s: "items_setitem h items i x = Inr h'"
  shows "preserves m h h'"
proof -
  from s obtain p g cs cs' where l: "lookup h items = Some (Group p g cs)"
    and cs': "py_setitem cs i x = Some cs'" and h': "h' = h[items := Group p g cs']"
    by (auto simp: items_setitem_def split: option.splits obj.splits)
  show ?thesis
    unfolding h'
  proof (rule preserves_update [OF f i])
    fix p' g' cs'' c assume "Group p g cs' = Group p' g' cs''" and c: "c \<in> set cs''"
    then have "c \<in> set cs'" by simp
    with py_setitem_set [OF cs'] have "c = x \<or> c \<in> set cs" by auto
    with x fresh_child [OF f i l] show "m \<le> c" by auto
  qed
qed

lemma items_delitem_preserves:
  assumes f: "fresh_inv m h" and i: "m \<le> items"
    and s: "items_delitem h items i = Inr h'"
  shows "preserves m h h'"
proof -
  from s obtain p g cs cs' where l: "lookup h items = Some (Group p g cs)"
    and cs': "py_delitem cs i = Some cs'" and h': "h' = h[items := Group p g cs']"
    by (auto simp: items_delitem_def split: option.splits obj.splits)
  show ?thesis
    unfolding h'
  proof (rule preserves_update [OF f i])
    fix p' g' cs'' c assume "Group p g cs' = Group p' g' cs''" and c: "c \<in> set cs''"
    then have "c \<in> set cs'" by simp
    with py_delitem_set [OF cs'] have "c \<in> set cs" by auto
    with fresh_child [OF f i l] show "m \<le> c" by auto
  qed
qed

lemma fresh_inv_length: "fresh_inv m h \<Longrightarrow> m \<le> length h"
  by (simp add: fresh_inv_def)

lemma Value_consume_frame:
  assumes f: "fresh_inv m h" and s: "m \<le> self" and i: "m \<le> items"
  shows "frame_ok m h (Value_consume h self items idx func)"
proof (cases "lookup h self")
  case None
  then show ?thesis using f by (simp add: Value_consume_def frame_ok_def preserves_refl)
next
  case (Some ob)
  show ?thesis
  proof (cases ob)
    case (Value sfunc svalue)
    let ?f = "case func of None \<Rightarrow> sfunc | Some f' \<Rightarrow> f'"
    let ?h1 = "h[self := Value ?f svalue]"
    let ?h2 = "?h1 @ [Result (?f svalue) (length svalue)]"
    have p1: "preserves m h ?h1" by (rule preserves_update [OF f s]) simp
    have p2: "preserves m ?h1 ?h2" by (rule preserves_append [OF preserves_fresh [OF p1]]) simp
    note p12 = preserves_trans [OF p1 p2]
    have r: "m \<le> length ?h1" using fresh_inv_length [OF f] by simp
    show ?thesis
    proof (cases "items_setitem ?h2 items idx (length ?h1)")
      case (Inl e)
      then show ?thesis using Some Value p12
        by (simp add: Value_consume_def frame_ok_def Let_def)
    next
      case (Inr h3)
      from items_setitem_preserves [OF preserves_fresh [OF p12] i r Inr]
      have "preserves m h h3" using p12 preserves_trans by blast
      then show ?thesis using Some Value Inr
        by (simp add: Value_consume_def frame_ok_def Let_def)
    qed
  qed (use Some f in \<open>simp_all add: Value_consume_def frame_ok_def preserves_refl\<close>)
qed


lemma frame_ok_Raised: "preserves m h h' \<Longrightarrow> frame_ok m h (Raised e h')"
  by (simp add: frame_ok_def)

lemma frame_ok_Returned: "preserves m h h' \<Longrightarrow> frame_ok m h (Returned x h')"
  by (simp add: frame_ok_def)

lemma frame_ok_trans: "preserves m h h1 \<Longrightarrow> frame_ok m h1 r \<Longrightarrow> frame_ok m h r"
  by (auto simp: frame_ok_def split: outcome.splits intro: preserves_trans)

lemma frame_ok_cases:
  assumes "frame_ok m h r"
  obtains "r = OutOfFuel"
  | e h' where "r = Raised e h'" and "preserves m h h'"
  | x h' where "r = Returned x h'" and "preserves m h h'"
  using assms by (cases r) (auto simp: frame_ok_def)

text \<open>Storing a new Result at \<open>items[idx]\<close> and deleting the operands.\<close>

lemma store_result_frame:
  assumes k: "\<And>h4. fresh_inv m h4 \<Longrightarrow> frame_ok m h4 (k h4)"
    and f: "fresh_inv m h1" and i: "m \<le> items"
  shows "frame_ok m h1
           (let result = length h1; h2 = h1 @ [Result v c]
            in case items_setitem h2 items idx result of
                 Inl e \<Rightarrow> Raised e h2
               | Inr h3 \<Rightarrow>
                   (case items_delitem h3 items j of
                      Inl e \<Rightarrow> Raised e h3
                    | Inr h4 \<Rightarrow> k h4))"
proof -
  let ?h2 = "h1 @ [Result v c]"
  have p2: "preserves m h1 ?h2" by (rule preserves_append [OF f]) simp
  have r: "m \<le> length h1" by (rule fresh_inv_length [OF f])
  show ?thesis
  proof (cases "items_setitem ?h2 items idx (length h1)")
    case (Inl e)
    then show ?thesis using p2 by (simp add: Let_def frame_ok_def)
  next
    case (Inr h3)
    from items_setitem_preserves [OF preserves_fresh [OF p2] i r Inr]
    have p3: "preserves m h1 h3" using p2 preserves_trans by blast
    show ?thesis
    proof (cases "items_delitem h3 items j")
      case (Inl e)
      then show ?thesis using Inr p3 by (simp add: Let_def frame_ok_def)
    next
      case Inr4: (Inr h4)
      from items_delitem_preserves [OF preserves_fresh [OF p3] i Inr4]
      have p4: "preserves m h1 h4" using p3 preserves_trans by blast
      from frame_ok_trans [OF p4 k [OF preserves_fresh [OF p4]]]
      show ?thesis using Inr Inr4 by (simp add: Let_def)
    qed
  qed
qed

lemma OperatorUnary_consume_frame:
  assumes f: "fresh_inv m h" and i: "m \<le> items"
    and rec: "\<And>s. m \<le> s \<Longrightarrow> frame_ok m h (consume_rec h s items (idx + 1) func)"
  shows "frame_ok m h (OperatorUnary_consume consume_rec n rep uf h items idx func)"
proof (cases "items_getitem h items (idx + 1)")
  case None
  then show ?thesis using f
    by (simp add: OperatorUnary_consume_def frame_ok_def preserves_refl)
next
  case (Some right)
  from items_getitem_fresh [OF f i Some] have "m \<le> right" .
  from rec [OF this] show ?thesis
  proof (cases rule: frame_ok_cases)
    case 1
    then show ?thesis using Some by (simp add: OperatorUnary_consume_def frame_ok_def)
  next
    case (2 e h')
    then show ?thesis using Some by (simp add: OperatorUnary_consume_def frame_ok_def)
  next
    case (3 x h1)
    note f1 = preserves_fresh [OF 3(2)]
    show ?thesis
    proof (cases "items_getitem h1 items (idx + 1)")
      case None
      then show ?thesis using Some 3 by (simp add: OperatorUnary_consume_def frame_ok_def)
    next
      case Some2: (Some r)
      show ?thesis
      proof (cases "read_result n h1 r")
        case None
        then show ?thesis using Some 3 Some2
          by (simp add: OperatorUnary_consume_def frame_ok_def)
      next
        case Some3: (Some rr)
        show ?thesis
        proof (cases rr)
          case (Inl e)
          then show ?thesis using Some 3 Some2 Some3
            by (simp add: OperatorUnary_consume_def frame_ok_def)
        next
          case (Inr vc)
          obtain v c where vc: "vc = (v, c)" by (cases vc)
          have "frame_ok m h1
           (let result = length h1; h2 = h1 @ [Result (uf v) (length rep + c)]
            in case items_setitem h2 items idx result of
                 Inl e \<Rightarrow> Raised e h2
               | Inr h3 \<Rightarrow>
                   (case items_delitem h3 items (idx + 1) of
                      Inl e \<Rightarrow> Raised e h3
                    | Inr h4 \<Rightarrow> Returned idx h4))"
            by (rule store_result_frame [OF _ f1 i]) (simp add: frame_ok_def preserves_refl)
          from frame_ok_trans [OF 3(2) this] show ?thesis
            using Some 3 Some2 Some3 Inr vc by (simp add: OperatorUnary_consume_def)
        qed
      qed
    qed
  qed
qed


lemma delete_left_frame:
  assumes f: "fresh_inv m h4" and i: "m \<le> items"
  shows "frame_ok m h4
           (case items_delitem h4 items j of
              Inl e \<Rightarrow> Raised e h4
            | Inr h5 \<Rightarrow> Returned x h5)"
proof (cases "items_delitem h4 items j")
  case (Inl e)
  then show ?thesis using f by (simp add: frame_ok_def preserves_refl)
next
  case (Inr h5)
  from items_delitem_preserves [OF f i Inr] show ?thesis using Inr by (simp add: frame_ok_def)
qed

lemma OperatorBinary_consume_frame:
  assumes f: "fresh_inv m h" and i: "m \<le> items"
    and rec: "\<And>s. m \<le> s \<Longrightarrow> frame_ok m h (consume_rec h s items (idx + 1) func)"
  shows "frame_ok m h (OperatorBinary_consume consume_rec n rep bf h items idx func)"
proof (cases "binary_operands h items idx")
  case None
  then show ?thesis using f
    by (simp add: OperatorBinary_consume_def frame_ok_def preserves_refl)
next
  case (Some lr)
  obtain left right where lr: "lr = (left, right)" by (cases lr)
  from Some lr have r: "items_getitem h items (idx + 1) = Some right"
    by (auto simp: binary_operands_def split: option.splits)
  from items_getitem_fresh [OF f i r] have mr: "m \<le> right" .
  show ?thesis
  proof (cases "is_Result (lookup h left)")
    case False
    then show ?thesis using Some lr f
      by (simp add: OperatorBinary_consume_def frame_ok_def preserves_refl)
  next
    case True
    from rec [OF mr] show ?thesis
    proof (cases rule: frame_ok_cases)
      case 1
      then show ?thesis using Some lr True by (simp add: OperatorBinary_consume_def frame_ok_def)
    next
      case (2 e h')
      then show ?thesis using Some lr True by (simp add: OperatorBinary_consume_def frame_ok_def)
    next
      case (3 x h1)
      note f1 = preserves_fresh [OF 3(2)]
      show ?thesis
      proof (cases "\<exists>lv lc. lookup h1 left = Some (Result lv lc)")
        case False
        have "OperatorBinary_consume consume_rec n rep bf h items idx func =
                Raised AttributeError h1"
        proof (cases "lookup h1 left")
          case None
          then show ?thesis using Some lr True 3 by (simp add: OperatorBinary_consume_def)
        next
          case Some1: (Some ob)
          with False show ?thesis using Some lr True 3
            by (cases ob) (simp_all add: OperatorBinary_consume_def)
        qed
        then show ?thesis using 3 by (simp add: frame_ok_def)
      next
        case T2: True
        then obtain lv lc where l1: "lookup h1 left = Some (Result lv lc)" by blast
        show ?thesis
        proof (cases "items_getitem h1 items (idx + 1)")
          case None
          then show ?thesis using Some lr True 3 l1
            by (simp add: OperatorBinary_consume_def frame_ok_def)
        next
          case Some2: (Some r)
          show ?thesis
          proof (cases "read_result n h1 r")
            case None
            then show ?thesis using Some lr True 3 l1 Some2
              by (simp add: OperatorBinary_consume_def frame_ok_def)
          next
            case Some3: (Some rr)
            show ?thesis
            proof (cases rr)
              case (Inl e)
              then show ?thesis using Some lr True 3 l1 Some2 Some3
                by (simp add: OperatorBinary_consume_def frame_ok_def)
            next
              case (Inr vc)
              obtain rv rc where vc: "vc = (rv, rc)" by (cases vc)
              have "frame_ok m h1
               (let result = length h1; h2 = h1 @ [Result (bf lv rv) (lc + length rep + rc)]
                in case items_setitem h2 items idx result of
                     Inl e \<Rightarrow> Raised e h2
                   | Inr h3 \<Rightarrow>
                       (case items_delitem h3 items (idx + 1) of
                          Inl e \<Rightarrow> Raised e h3
                        | Inr h4 \<Rightarrow>
                            (case items_delitem h4 items (idx - 1) of
                               Inl e \<Rightarrow> Raised e h4
                             | Inr h5 \<Rightarrow> Returned (idx - 1) h5)))"
                by (rule store_result_frame [OF delete_left_frame [OF _ i] f1 i])
              from frame_ok_trans [OF 3(2) this] show ?thesis
                using Some lr True 3 l1 Some2 Some3 Inr vc
                by (simp add: OperatorBinary_consume_def)
            qed
          qed
        qed
      qed
    qed
  qed
qed

lemma raise_with_length_frame:
  assumes "fresh_inv m h1"
  shows "frame_ok m h1
           (case cl of
              None \<Rightarrow> OutOfFuel
            | Some (Inl e') \<Rightarrow> Raised e' h1
            | Some (Inr c) \<Rightarrow> Raised (mk c) h1)"
  using assms by (auto simp: frame_ok_def preserves_refl split: option.splits sum.splits)

lemma Group_consume_loop_frame:
  assumes f: "fresh_inv m h" and s: "m \<le> self"
    and rec: "\<And>h' c ci. fresh_inv m h' \<Longrightarrow> m \<le> c \<Longrightarrow>
                frame_ok m h' (consume_rec h' c self ci func)"
  shows "frame_ok m h (Group_consume_loop consume_rec n k h self child_i func)"
  using f
proof (induction k arbitrary: h child_i)
  case 0
  show ?case by (simp add: frame_ok_def)
next
  case (Suc k)
  note f = Suc.prems
  show ?case
  proof (cases "\<exists>p g cs. lookup h self = Some (Group p g cs)")
    case False
    then have "Group_consume_loop consume_rec n (Suc k) h self child_i func =
                 Raised AttributeError h"
      by (auto split: option.splits obj.splits)
    then show ?thesis using f by (simp add: frame_ok_def preserves_refl)
  next
    case True
    then obtain p g cs where l: "lookup h self = Some (Group p g cs)" by blast
    show ?thesis
    proof (cases "child_i < int (length cs)")
      case False
      then show ?thesis using l f by (simp add: frame_ok_def preserves_refl)
    next
      case lt: True
      show ?thesis
      proof (cases "py_getitem cs child_i")
        case None
        then show ?thesis using l f lt by (simp add: frame_ok_def preserves_refl)
      next
        case (Some child)
        from fresh_child [OF f s l py_getitem_set [OF Some]] have mc: "m \<le> child" .
        from rec [OF f mc, of child_i] show ?thesis
        proof (cases rule: frame_ok_cases)
          case 1
          then show ?thesis using l lt Some by (simp add: frame_ok_def)
        next
          case (2 e h1)
          note f1 = preserves_fresh [OF 2(2)]
          have "frame_ok m h1
            (case e of
               InvalidOperandError msg ix \<Rightarrow>
                 (case ix of
                    None \<Rightarrow>
                      (case consumed_length n h1 self of
                         None \<Rightarrow> OutOfFuel
                       | Some (Inl e') \<Rightarrow> Raised e' h1
                       | Some (Inr cl) \<Rightarrow>
                           Raised (InvalidOperandError (OperatorAtIndex (cl + 1))
                                     (Some (cl + 1))) h1)
                  | Some i \<Rightarrow> Raised e h1)
             | _ \<Rightarrow> Raised e h1)"
            using f1
            by (auto simp: frame_ok_def preserves_refl
                split: error.splits option.splits sum.splits)
          from frame_ok_trans [OF 2(2) this] show ?thesis
            using l lt Some 2(1) by simp
        next
          case (3 ci h1)
          note f1 = preserves_fresh [OF 3(2)]
          show ?thesis
          proof (cases "ci = 0")
            case True
            from frame_ok_trans [OF 3(2) Suc.IH [OF f1]] show ?thesis
              using l lt Some 3(1) True by simp
          next
            case False
            from frame_ok_trans [OF 3(2) raise_with_length_frame [OF f1]] show ?thesis
              using l lt Some 3(1) False by simp
          qed
        qed
      qed
    qed
  qed
qed


lemma Group_consume_frame:
  assumes f: "fresh_inv m h" and s: "m \<le> self"
    and c: "\<And>items i. ctx = Some (items, i) \<Longrightarrow> m \<le> items"
    and rec: "\<And>h' c ci. fresh_inv m h' \<Longrightarrow> m \<le> c \<Longrightarrow>
                frame_ok m h' (consume_rec h' c self ci func)"
  shows "frame_ok m h (Group_consume consume_rec n h self ctx func)"
proof -
  have "frame_ok m h (Group_consume_loop consume_rec n n h self 0 func)"
    by (rule Group_consume_loop_frame [where consume_rec = consume_rec, OF f s]) (rule rec)
  then show ?thesis
  proof (cases rule: frame_ok_cases)
    case 1
    then show ?thesis by (simp add: Group_consume_def frame_ok_def)
  next
    case (2 e h')
    then show ?thesis by (simp add: Group_consume_def frame_ok_def)
  next
    case (3 x h1)
    note f1 = preserves_fresh [OF 3(2)]
    show ?thesis
    proof (cases "\<exists>p g res cs. lookup h1 self = Some (Group p g (res # cs))")
      case False
      have "\<exists>e. Group_consume consume_rec n h self ctx func = Raised e h1"
      proof (cases "lookup h1 self")
        case None
        then show ?thesis using 3(1) by (simp add: Group_consume_def)
      next
        case (Some ob)
        show ?thesis
        proof (cases ob)
          case (Group p g cs)
          with False Some have "cs = []" by (cases cs) auto
          then show ?thesis using 3(1) Some Group by (simp add: Group_consume_def)
        qed (use 3(1) Some in \<open>simp_all add: Group_consume_def\<close>)
      qed
      then show ?thesis using 3(2) by (auto simp: frame_ok_def)
    next
      case True
      then obtain p g res cs where l: "lookup h1 self = Some (Group p g (res # cs))" by blast
      from fresh_child [OF f1 s l] have mr: "m \<le> res" by simp
      let ?upd = "case g of
                    None \<Rightarrow> Some (Inr h1)
                  | Some gr \<Rightarrow>
                      (case read_result n h1 res of
                         None \<Rightarrow> None
                       | Some (Inl e) \<Rightarrow> Some (Inl e)
                       | Some (Inr (v, c)) \<Rightarrow>
                           Some (Inr (h1[res := Result v (c + Grouping_len gr)])))"
      have unfold: "Group_consume consume_rec n h self ctx func =
          (case ?upd of
             None \<Rightarrow> OutOfFuel
           | Some (Inl e) \<Rightarrow> Raised e h1
           | Some (Inr h2) \<Rightarrow>
               (case ctx of
                  None \<Rightarrow> Returned (Inl res) h2
                | Some (items, i) \<Rightarrow>
                    (case items_setitem h2 items i res of
                       Inl e \<Rightarrow> Raised e h2
                     | Inr h3 \<Rightarrow> Returned (Inr i) h3)))"
        using 3(1) l by (simp add: Group_consume_def)
      have upd: "preserves m h1 h2" if "?upd = Some (Inr h2)" for h2
      proof (cases g)
        case None
        with that show ?thesis using f1 by (simp add: preserves_refl)
      next
        case (Some gr)
        with that obtain v c where "h2 = h1[res := Result v (c + Grouping_len gr)]"
          by (auto split: option.splits sum.splits)
        then show ?thesis using preserves_update [OF f1 mr, of "Result v (c + Grouping_len gr)"]
          by simp
      qed
      show ?thesis
      proof (cases ?upd)
        case None
        then show ?thesis unfolding unfold by (simp add: frame_ok_def)
      next
        case (Some u)
        show ?thesis
        proof (cases u)
          case (Inl e)
          then show ?thesis unfolding unfold using Some 3(2) by (simp add: frame_ok_def)
        next
          case (Inr h2)
          from upd [OF Some [unfolded Inr]] have p2: "preserves m h1 h2" .
          note p02 = preserves_trans [OF 3(2) p2]
          show ?thesis
          proof (cases ctx)
            case None
            then show ?thesis unfolding unfold using Some Inr p02 by (simp add: frame_ok_def)
          next
            case Some2: (Some ii)
            obtain items i where ii: "ii = (items, i)" by (cases ii)
            from c [OF Some2 [unfolded ii]] have mi: "m \<le> items" .
            show ?thesis
            proof (cases "items_setitem h2 items i res")
              case Inl2: (Inl e)
              then show ?thesis unfolding unfold using Some Inr p02 Some2 ii
                by (simp add: frame_ok_def)
            next
              case Inr2: (Inr h3)
              from items_setitem_preserves [OF preserves_fresh [OF p2] mi mr Inr2]
              have "preserves m h h3" using p02 preserves_trans by blast
              then show ?thesis unfolding unfold using Some Inr Some2 ii Inr2
                by (simp add: frame_ok_def)
            qed
          qed
        qed
      qed
    qed
  qed
qed

lemma consume_frame:
  "fresh_inv m h \<Longrightarrow> m \<le> self \<Longrightarrow> m \<le> items \<Longrightarrow>
   frame_ok m h (consume n h self items idx func)"
proof (induction n arbitrary: h self items idx)
  case 0
  show ?case by (simp add: frame_ok_def)
next
  case (Suc n)
  note f = Suc.prems(1) and s = Suc.prems(2) and i = Suc.prems(3)
  show ?case
  proof (cases "lookup h self")
    case None
    then show ?thesis using f by (simp add: frame_ok_def preserves_refl)
  next
    case (Some ob)
    show ?thesis
    proof (cases ob)
      case (Group p g cs)
      have "frame_ok m h (Group_consume (consume n) n h self (Some (items, idx)) func)"
        by (rule Group_consume_frame [OF f s]) (use i s Suc.IH in auto)
      then show ?thesis using Some Group
        by (auto simp: frame_ok_def split: outcome.splits sum.splits)
    next
      case (OperatorBinary rep bf)
      have "frame_ok m h (OperatorBinary_consume (consume n) n rep bf h items idx func)"
        by (rule OperatorBinary_consume_frame [OF f i]) (use f i Suc.IH in auto)
      then show ?thesis using Some OperatorBinary by simp
    next
      case (OperatorUnary rep uf)
      have "frame_ok m h (OperatorUnary_consume (consume n) n rep uf h items idx func)"
        by (rule OperatorUnary_consume_frame [OF f i]) (use f i Suc.IH in auto)
      then show ?thesis using Some OperatorUnary by simp
    next
      case (Value vf v)
      then show ?thesis using Some Value_consume_frame [OF f s i] by simp
    next
      case (Result v c)
      then show ?thesis using Some f by (simp add: frame_ok_def preserves_refl)
    qed
  qed
qed


lemma fresh_inv_self: "fresh_inv (length h) h"
  by (auto simp: fresh_inv_def dest: lookup_lt)

lemma fresh_inv_mono_le: "fresh_inv m h \<Longrightarrow> m \<le> length h"
  by (simp add: fresh_inv_def)

lemma ran_upd_fresh:
  "\<forall>b \<in> ran memo. (m::nat) \<le> b \<Longrightarrow> m \<le> y \<Longrightarrow> \<forall>b \<in> ran (memo(x \<mapsto> y)). m \<le> b"
  by (auto simp: ran_def split: if_splits)

lemma take_take_le: "k \<le> l \<Longrightarrow> take l h' = h1 \<Longrightarrow> take k h' = take k h1"
  by (auto simp: min_def)

lemma deepcopy_list_frame:
  assumes rec: "\<And>h memo x h' memo' y.
      copy_rec h memo x = Some (h', memo', y) \<Longrightarrow> fresh_inv m h \<Longrightarrow> \<forall>b \<in> ran memo. m \<le> b \<Longrightarrow>
      preserves m h h' \<and> (\<forall>b \<in> ran memo'. m \<le> b) \<and> m \<le> y \<and> take (length h) h' = h"
  shows "deepcopy_list copy_rec h memo xs = Some (h', memo', ys) \<Longrightarrow>
         fresh_inv m h \<Longrightarrow> \<forall>b \<in> ran memo. m \<le> b \<Longrightarrow>
         preserves m h h' \<and> (\<forall>b \<in> ran memo'. m \<le> b) \<and> (\<forall>y \<in> set ys. m \<le> y) \<and>
         take (length h) h' = h \<and> length ys = length xs"
proof (induction xs arbitrary: h memo h' memo' ys)
  case Nil
  then show ?case by (simp add: preserves_refl)
next
  case (Cons x xs)
  from Cons.prems(1) obtain h1 memo1 y h2 memo2 ys' where
    a: "copy_rec h memo x = Some (h1, memo1, y)"
    and b: "deepcopy_list copy_rec h1 memo1 xs = Some (h2, memo2, ys')"
    and c: "h' = h2" "memo' = memo2" "ys = y # ys'"
    by (auto split: option.splits prod.splits)
  from rec [OF a Cons.prems(2,3)] have
    r: "preserves m h h1" "\<forall>b \<in> ran memo1. m \<le> b" "m \<le> y" "take (length h) h1 = h"
    by auto
  from Cons.IH [OF b preserves_fresh [OF r(1)] r(2)] have
    l: "preserves m h1 h2" "\<forall>b \<in> ran memo2. m \<le> b" "\<forall>y \<in> set ys'. m \<le> y"
      "take (length h1) h2 = h1" "length ys' = length xs"
    by auto
  have "length (take (length h) h1) = length h" using r(4) by simp
  then have "length h \<le> length h1" by simp
  from take_take_le [OF this l(4)] r(4) have "take (length h) h2 = h" by simp
  with preserves_trans [OF r(1) l(1)] l r(3) c show ?case by simp
qed

lemma deepcopy_frame:
  "deepcopy n h memo x = Some (h', memo', y) \<Longrightarrow> fresh_inv m h \<Longrightarrow>
   \<forall>b \<in> ran memo. m \<le> b \<Longrightarrow>
   preserves m h h' \<and> (\<forall>b \<in> ran memo'. m \<le> b) \<and> m \<le> y \<and> take (length h) h' = h"
proof (induction n arbitrary: h memo x h' memo' y m)
  case 0
  then show ?case by simp
next
  case (Suc n)
  note f = Suc.prems(2) and mf = Suc.prems(3)
  note ml = fresh_inv_mono_le [OF f]
  show ?case
  proof (cases "memo x")
    case (Some z)
    with Suc.prems(1) have "h' = h" "memo' = memo" "y = z" by auto
    moreover from Some mf have "m \<le> z" by (auto simp: ran_def)
    ultimately show ?thesis using f mf by (simp add: preserves_refl)
  next
    case None
    show ?thesis
    proof (cases "lookup h x")
      case N2: None
      with None Suc.prems(1) have e: "h' = h" "memo' = memo" "y = x" by auto
      from N2 have "length h \<le> x" by (auto simp: lookup_def split: if_splits)
      with e ml f mf show ?thesis by (simp add: preserves_refl)
    next
      case (Some ob)
      have leaf: ?thesis if "h' = h @ [ob']" "memo' = memo(x \<mapsto> length h)" "y = length h"
        "\<And>p g cs. ob' \<noteq> Group p g cs" for ob'
      proof -
        have "preserves m h (h @ [ob'])" by (rule preserves_append [OF f]) (use that(4) in auto)
        moreover have "\<forall>b \<in> ran (memo(x \<mapsto> length h)). m \<le> b"
          by (rule ran_upd_fresh [OF mf ml])
        moreover have "take (length h) (h @ [ob']) = h" by simp
        ultimately show ?thesis unfolding that(1-3) using ml by blast
      qed
      show ?thesis
      proof (cases ob)
        case (Group p g cs)
        let ?h1 = "h @ [Group p g []]"
        have eq: "deepcopy (Suc n) h memo x =
            (case deepcopy_list (deepcopy n) ?h1 Map.empty cs of
               None \<Rightarrow> None
             | Some (h2, memo2, cs') \<Rightarrow>
                 Some (h2[length h := Group p g cs'], memo(x \<mapsto> length h), length h))"
          using None Some Group by (simp add: Let_def)
        obtain h2 memo2 cs' where
          l: "deepcopy_list (deepcopy n) ?h1 Map.empty cs = Some (h2, memo2, cs')"
          and e: "h' = h2[length h := Group p g cs']" "memo' = memo(x \<mapsto> length h)"
            "y = length h"
        proof (cases "deepcopy_list (deepcopy n) ?h1 Map.empty cs")
          case None
          from Suc.prems(1) [unfolded eq] None show ?thesis by (simp del: deepcopy.simps)
        next
          case (Some r)
          obtain a b c where r: "r = (a, b, c)" by (cases r)
          from Suc.prems(1) [unfolded eq] Some r
          have "h' = a[length h := Group p g c]" "memo' = memo(x \<mapsto> length h)" "y = length h"
            by (auto simp del: deepcopy.simps)
          with Some r show ?thesis by (rule_tac that) (simp_all del: deepcopy.simps)
        qed
        have p1: "preserves m h ?h1" by (rule preserves_append [OF f]) simp
        have "preserves m ?h1 h2 \<and> (\<forall>b \<in> ran memo2. m \<le> b) \<and> (\<forall>y \<in> set cs'. m \<le> y) \<and>
              take (length ?h1) h2 = ?h1 \<and> length cs' = length cs"
          by (rule deepcopy_list_frame [OF _ l preserves_fresh [OF p1]])
            (use Suc.IH in \<open>auto\<close>)
        then have p2: "preserves m ?h1 h2" and cs': "\<forall>y \<in> set cs'. m \<le> y"
          and t2: "take (length ?h1) h2 = ?h1" by auto
        have p3: "preserves m h2 h'"
          unfolding e(1) by (rule preserves_update [OF preserves_fresh [OF p2] ml]) (use cs' in auto)
        have "take (length h) h2 = take (length h) ?h1"
          by (rule take_take_le [OF _ t2]) simp
        then have "take (length h) h' = h" unfolding e(1) by simp
        moreover have "\<forall>b \<in> ran (memo(x \<mapsto> length h)). m \<le> b"
          by (rule ran_upd_fresh [OF mf ml])
        moreover note preserves_trans [OF p1 preserves_trans [OF p2 p3]]
        ultimately show ?thesis unfolding e(2,3) using ml by blast
      next
        case (OperatorBinary rep bf)
        show ?thesis
          by (rule leaf [of "OperatorBinary rep bf"])
            (use Suc.prems(1) None Some OperatorBinary in auto)
      next
        case (OperatorUnary rep uf)
        show ?thesis
          by (rule leaf [of "OperatorUnary rep uf"])
            (use Suc.prems(1) None Some OperatorUnary in auto)
      next
        case (Value vf v)
        show ?thesis
          by (rule leaf [of "Value vf v"]) (use Suc.prems(1) None Some Value in auto)
      next
        case (Result v c)
        show ?thesis
          by (rule leaf [of "Result v c"]) (use Suc.prems(1) None Some Result in auto)
      qed
    qed
  qed
qed

lemma evaluate_frame:
  "frame_ok (length h) h (evaluate n h self func)"
proof (cases "deepcopy n h Map.empty self")
  case None
  then show ?thesis by (simp add: evaluate_def frame_ok_def)
next
  case (Some r)
  obtain h1 memo copy_self where r: "r = (h1, memo, copy_self)" by (cases r)
  from deepcopy_frame [OF Some [unfolded r] fresh_inv_self] have
    p: "preserves (length h) h h1" and c: "length h \<le> copy_self" by auto
  have "frame_ok (length h) h1 (Group_consume (consume n) n h1 copy_self None func)"
    by (rule Group_consume_frame [OF preserves_fresh [OF p] c])
      (use c consume_frame in auto)
  from frame_ok_trans [OF p this] show ?thesis using Some r by (simp add: evaluate_def)
qed

lemma evaluate_unchanged:
  assumes "evaluate n h self func = Raised e h' \<or> evaluate n h self func = Returned r h'"
  shows "take (length h) h' = h"
  using evaluate_frame [of h n self func] assms
  by (auto simp: frame_ok_def preserves_def)

lemma deepcopy_Group:
  assumes d: "deepcopy n h memo x = Some (h', memo', y)" and m: "memo x = None"
    and l: "lookup h x = Some (Group p g cs)"
  shows "y = length h \<and> take (length h) h' = h \<and>
         (\<exists>cs'. lookup h' y = Some (Group p g cs') \<and> length cs' = length cs \<and>
                 (\<forall>c \<in> set cs'. length h < c))"
proof (cases n)
  case 0
  with d show ?thesis by simp
next
  case (Suc k)
  let ?h1 = "h @ [Group p g []]"
  have eq: "deepcopy (Suc k) h memo x =
      (case deepcopy_list (deepcopy k) ?h1 Map.empty cs of
         None \<Rightarrow> None
       | Some (h2, memo2, cs') \<Rightarrow>
           Some (h2[length h := Group p g cs'], memo(x \<mapsto> length h), length h))"
    using m l by (simp add: Let_def)
  note d' = d [unfolded Suc eq]
  show ?thesis
  proof (cases "deepcopy_list (deepcopy k) ?h1 Map.empty cs")
    case None
    with d' show ?thesis by (simp del: deepcopy.simps)
  next
    case (Some r)
    obtain h2 memo2 cs' where r: "r = (h2, memo2, cs')" by (cases r)
    from d' Some r have e: "h' = h2[length h := Group p g cs']" "y = length h"
      by (auto simp del: deepcopy.simps)
    have "preserves (length ?h1) ?h1 h2 \<and> (\<forall>b \<in> ran memo2. length ?h1 \<le> b) \<and>
          (\<forall>y \<in> set cs'. length ?h1 \<le> y) \<and> take (length ?h1) h2 = ?h1 \<and>
          length cs' = length cs"
      by (rule deepcopy_list_frame [OF _ Some [unfolded r] fresh_inv_self])
        (erule (2) deepcopy_frame, simp)
    then have cs': "\<forall>y \<in> set cs'. length ?h1 \<le> y" and t2: "take (length ?h1) h2 = ?h1"
      and len: "length cs' = length cs" by auto
    have "length (take (length ?h1) h2) = length ?h1" using t2 by simp
    then have l2: "length h < length h2" by simp
    have "take (length h) h2 = take (length h) ?h1"
      by (rule take_take_le [OF _ t2]) simp
    then have "take (length h) h' = h" unfolding e(1) by simp
    moreover have "lookup h' y = Some (Group p g cs')"
      unfolding e using l2 by (simp add: lookup_def)
    moreover have "\<forall>c \<in> set cs'. length h < c" using cs' by auto
    ultimately show ?thesis using e(2) len by blast
  qed
qed

lemma lookup_take: "take k h' = h \<Longrightarrow> a < length h \<Longrightarrow> lookup h' a = lookup h a"
  by (auto simp: lookup_def)

lemma deep_copy_transfer:
  assumes "deep_copy m k h x y" and "k' \<le> k"
    and keep: "\<And>a ob. a < m \<or> k \<le> a \<Longrightarrow> lookup h a = Some ob \<Longrightarrow> lookup h' a = Some ob"
  shows "deep_copy m k' h' x y"
  using assms(1)
proof (induction rule: deep_copy.induct)
  case (deep_copy_leaf x y ob)
  show ?case
    by (rule deep_copy.deep_copy_leaf [of _ _ _ _ _ ob])
      (use deep_copy_leaf assms(2) keep in auto)
next
  case (deep_copy_Group x y p g cs cs')
  from deep_copy_Group(5) have "list_all2 (deep_copy m k' h') cs cs'"
    by (rule list_all2_mono) simp
  with deep_copy_Group(1-4) assms(2) keep show ?case
    by (intro deep_copy.deep_copy_Group [of _ _ _ _ _ p g cs cs']) auto
qed

lemma lookup_extend:
  "take (length h) h' = h \<Longrightarrow> lookup h a = Some ob \<Longrightarrow> lookup h' a = Some ob"
  using lookup_take [of "length h" h' h a] by (simp add: lookup_lt)

lemma deep_copy_extend:
  "deep_copy m k h x y \<Longrightarrow> take (length h) h' = h \<Longrightarrow> deep_copy m k h' x y"
  by (erule deep_copy_transfer) (auto intro: lookup_extend)

lemma memo_copies_extend:
  "memo_copies m k h memo \<Longrightarrow> take (length h) h' = h \<Longrightarrow> memo_copies m k h' memo"
  by (auto simp: memo_copies_def intro: deep_copy_extend)

lemma memo_copies_empty: "memo_copies m k h Map.empty"
  by (simp add: memo_copies_def)

lemma memo_copies_upd:
  "memo_copies m k h memo \<Longrightarrow> deep_copy m k h x y \<Longrightarrow> memo_copies m k h (memo(x \<mapsto> y))"
  by (simp add: memo_copies_def)

lemma deepcopy_list_copies:
  assumes rec: "\<And>h memo x h' memo' y.
      copy_rec h memo x = Some (h', memo', y) \<Longrightarrow> take m h = h0 \<Longrightarrow> x < m \<Longrightarrow>
      k \<le> length h \<Longrightarrow> memo_copies m k h memo \<Longrightarrow>
      deep_copy m k h' x y \<and> memo_copies m k h' memo' \<and> take (length h) h' = h"
    and mk: "m \<le> k"
  shows "deepcopy_list copy_rec h memo xs = Some (h', memo', ys) \<Longrightarrow> take m h = h0 \<Longrightarrow>
         \<forall>x \<in> set xs. x < m \<Longrightarrow> k \<le> length h \<Longrightarrow> memo_copies m k h memo \<Longrightarrow>
         list_all2 (deep_copy m k h') xs ys \<and> memo_copies m k h' memo' \<and>
         take (length h) h' = h"
proof (induction xs arbitrary: h memo h' memo' ys)
  case Nil
  then show ?case by simp
next
  case (Cons x xs)
  from Cons.prems(1) obtain h1 memo1 y h2 memo2 ys' where
    a: "copy_rec h memo x = Some (h1, memo1, y)"
    and b: "deepcopy_list copy_rec h1 memo1 xs = Some (h2, memo2, ys')"
    and c: "h' = h2" "memo' = memo2" "ys = y # ys'"
    by (auto split: option.splits prod.splits)
  from Cons.prems(3) have x: "x < m" and xs: "\<forall>x \<in> set xs. x < m" by auto
  from rec [OF a Cons.prems(2) x Cons.prems(4,5)] have
    r: "deep_copy m k h1 x y" "memo_copies m k h1 memo1" "take (length h) h1 = h"
    by auto
  have "length (take (length h) h1) = length h" using r(3) by simp
  then have le: "length h \<le> length h1" by simp
  with Cons.prems(4) mk have mh: "m \<le> length h" and k1: "k \<le> length h1" by auto
  from take_take_le [OF mh r(3)] Cons.prems(2) have t1: "take m h1 = h0" by simp
  from Cons.IH [OF b t1 xs k1 r(2)] have
    l: "list_all2 (deep_copy m k h2) xs ys'" "memo_copies m k h2 memo2"
      "take (length h1) h2 = h1"
    by auto
  from take_take_le [OF le l(3)] r(3) have "take (length h) h2 = h" by simp
  moreover from deep_copy_extend [OF r(1) l(3)] have "deep_copy m k h2 x y" .
  ultimately show ?case using l c by simp
qed

lemma deepcopy_copies:
  assumes cl: "closed h0"
  shows "deepcopy n h memo x = Some (h', memo', y) \<Longrightarrow> take (length h0) h = h0 \<Longrightarrow>
         x < length h0 \<Longrightarrow> length h0 \<le> k \<Longrightarrow> k \<le> length h \<Longrightarrow>
         memo_copies (length h0) k h memo \<Longrightarrow>
         deep_copy (length h0) k h' x y \<and> memo_copies (length h0) k h' memo' \<and>
         take (length h) h' = h"
proof (induction n arbitrary: h memo x h' memo' y k)
  case 0
  then show ?case by simp
next
  case (Suc n)
  let ?m = "length h0"
  note t = Suc.prems(2) and x = Suc.prems(3) and mk = Suc.prems(4) and kh = Suc.prems(5)
    and mc = Suc.prems(6)
  from mk kh have mh: "?m \<le> length h" by simp
  have lx: "lookup h x = lookup h0 x" by (rule lookup_take [OF t x])
  show ?case
  proof (cases "memo x")
    case (Some z)
    with Suc.prems(1) have "h' = h" "memo' = memo" "y = z" by auto
    with Some mc show ?thesis by (simp add: memo_copies_def)
  next
    case None
    from x obtain ob where ob: "lookup h0 x = Some ob" by (auto simp: lookup_def)
    with lx have Some: "lookup h x = Some ob" by simp
    have leaf: ?thesis if "h' = h @ [ob]" "memo' = memo(x \<mapsto> length h)" "y = length h"
      "\<forall>p g cs. ob \<noteq> Group p g cs"
    proof -
      have e: "take (length h) (h @ [ob]) = h" by simp
      have dc: "deep_copy ?m k (h @ [ob]) x (length h)"
        by (rule deep_copy_leaf [of _ _ _ _ _ ob])
          (use x kh mh Some that(4) in \<open>auto simp: lookup_append\<close>)
      from memo_copies_upd [OF memo_copies_extend [OF mc e] dc] dc e
      show ?thesis unfolding that(1-3) by blast
    qed
    show ?thesis
    proof (cases ob)
      case (Group p g cs)
      let ?h1 = "h @ [Group p g []]"
      have eq: "deepcopy (Suc n) h memo x =
          (case deepcopy_list (deepcopy n) ?h1 Map.empty cs of
             None \<Rightarrow> None
           | Some (h2, memo2, cs') \<Rightarrow>
               Some (h2[length h := Group p g cs'], memo(x \<mapsto> length h), length h))"
        using None Some Group by (simp add: Let_def)
      obtain h2 memo2 cs' where
        l: "deepcopy_list (deepcopy n) ?h1 Map.empty cs = Some (h2, memo2, cs')"
        and e: "h' = h2[length h := Group p g cs']" "memo' = memo(x \<mapsto> length h)"
          "y = length h"
      proof (cases "deepcopy_list (deepcopy n) ?h1 Map.empty cs")
        case None
        from Suc.prems(1) [unfolded eq] None show ?thesis by (simp del: deepcopy.simps)
      next
        case (Some r)
        obtain a b c where r: "r = (a, b, c)" by (cases r)
        from Suc.prems(1) [unfolded eq] Some r
        have "h' = a[length h := Group p g c]" "memo' = memo(x \<mapsto> length h)" "y = length h"
          by (auto simp del: deepcopy.simps)
        with Some r show ?thesis by (rule_tac that) (simp_all del: deepcopy.simps)
      qed
      have t1: "take ?m ?h1 = h0" using t mh by simp
      have cs: "\<forall>c \<in> set cs. c < ?m"
        using closedD [OF cl ob [unfolded Group]] by simp
      have "list_all2 (deep_copy ?m (length ?h1) h2) cs cs' \<and>
            memo_copies ?m (length ?h1) h2 memo2 \<and> take (length ?h1) h2 = ?h1"
      proof (rule deepcopy_list_copies [OF _ _ l t1 cs _ memo_copies_empty])
        show "?m \<le> length ?h1" using mh by simp
        show "length ?h1 \<le> length ?h1" by simp
      next
        fix ha memoa xa ha' memoa' ya
        assume "deepcopy n ha memoa xa = Some (ha', memoa', ya)" "take ?m ha = h0" "xa < ?m"
          "length ?h1 \<le> length ha" "memo_copies ?m (length ?h1) ha memoa"
        then show "deep_copy ?m (length ?h1) ha' xa ya \<and>
            memo_copies ?m (length ?h1) ha' memoa' \<and> take (length ha) ha' = ha"
          using mh by (intro Suc.IH) auto
      qed
      then have la: "list_all2 (deep_copy ?m (length ?h1) h2) cs cs'"
        and t2: "take (length ?h1) h2 = ?h1" by auto
      have "length (take (length ?h1) h2) = length ?h1" using t2 by simp
      then have l2: "length h < length h2" by simp
      have "take (length h) h2 = take (length h) ?h1"
        by (rule take_take_le [OF _ t2]) simp
      then have th: "take (length h) h' = h" unfolding e(1) by simp
      have keep: "lookup h' a = Some ob'"
        if "a < ?m \<or> length ?h1 \<le> a" "lookup h2 a = Some ob'" for a ob'
        using that mh unfolding e(1) by (auto simp: lookup_update)
      have "list_all2 (deep_copy ?m k h') cs cs'"
        by (rule list_all2_mono [OF la], erule deep_copy_transfer)
          (use kh keep in auto)
      moreover have "lookup h' x = Some (Group p g cs)"
        using lookup_extend [OF th Some] Group by simp
      moreover have "lookup h' (length h) = Some (Group p g cs')"
        unfolding e(1) using l2 by (simp add: lookup_def)
      ultimately have dc: "deep_copy ?m k h' x (length h)"
        using x kh by (intro deep_copy_Group [of _ _ _ _ _ p g cs cs']) auto
      from memo_copies_upd [OF memo_copies_extend [OF mc th] dc] dc th
      show ?thesis unfolding e(2,3) by blast
    next
      case (OperatorBinary rep bf)
      show ?thesis
        by (rule leaf) (use Suc.prems(1) None Some OperatorBinary in auto)
    next
      case (OperatorUnary rep uf)
      show ?thesis
        by (rule leaf) (use Suc.prems(1) None Some OperatorUnary in auto)
    next
      case (Value vf v)
      show ?thesis
        by (rule leaf) (use Suc.prems(1) None Some Value in auto)
    next
      case (Result v c)
      show ?thesis
        by (rule leaf) (use Suc.prems(1) None Some Result in auto)
    qed
  qed
qed


lemma deepcopy_Group_children:
  assumes cl: "closed h" and d: "deepcopy n h memo x = Some (h', memo', y)"
    and m: "memo x = None" and l: "lookup h x = Some (Group p g cs)"
  shows "\<exists>cs'. lookup h' y = Some (Group p g cs') \<and>
           list_all2 (deep_copy (length h) (Suc (length h)) h') cs cs'"
proof (cases n)
  case 0
  with d show ?thesis by simp
next
  case (Suc k)
  let ?h1 = "h @ [Group p g []]"
  have eq: "deepcopy (Suc k) h memo x =
      (case deepcopy_list (deepcopy k) ?h1 Map.empty cs of
         None \<Rightarrow> None
       | Some (h2, memo2, cs') \<Rightarrow>
           Some (h2[length h := Group p g cs'], memo(x \<mapsto> length h), length h))"
    using m l by (simp add: Let_def)
  note d' = d [unfolded Suc eq]
  show ?thesis
  proof (cases "deepcopy_list (deepcopy k) ?h1 Map.empty cs")
    case None
    with d' show ?thesis by (simp del: deepcopy.simps)
  next
    case (Some r)
    obtain h2 memo2 cs' where r: "r = (h2, memo2, cs')" by (cases r)
    from d' Some r have e: "h' = h2[length h := Group p g cs']" "y = length h"
      by (auto simp del: deepcopy.simps)
    have t1: "take (length h) ?h1 = h" by simp
    have cs: "\<forall>c \<in> set cs. c < length h" using closedD [OF cl l] by simp
    have "list_all2 (deep_copy (length h) (length ?h1) h2) cs cs' \<and>
          memo_copies (length h) (length ?h1) h2 memo2 \<and> take (length ?h1) h2 = ?h1"
    proof (rule deepcopy_list_copies [OF _ _ Some [unfolded r] t1 cs _ memo_copies_empty])
      show "length h \<le> length ?h1" by simp
      show "length ?h1 \<le> length ?h1" by simp
    next
      fix ha memoa xa ha' memoa' ya
      assume "deepcopy k ha memoa xa = Some (ha', memoa', ya)" "take (length h) ha = h"
        "xa < length h" "length ?h1 \<le> length ha" "memo_copies (length h) (length ?h1) ha memoa"
      then show "deep_copy (length h) (length ?h1) ha' xa ya \<and>
          memo_copies (length h) (length ?h1) ha' memoa' \<and> take (length ha) ha' = ha"
        by (intro deepcopy_copies [OF cl]) auto
    qed
    then have la: "list_all2 (deep_copy (length h) (length ?h1) h2) cs cs'"
      and t2: "take (length ?h1) h2 = ?h1" by auto
    have "length (take (length ?h1) h2) = length ?h1" using t2 by simp
    then have l2: "length h < length h2" by simp
    have keep: "lookup h' a = Some ob'"
      if "a < length h \<or> length ?h1 \<le> a" "lookup h2 a = Some ob'" for a ob'
      using that unfolding e(1) by (auto simp: lookup_update)
    have "list_all2 (deep_copy (length h) (length ?h1) h') cs cs'"
      by (rule list_all2_mono [OF la], erule deep_copy_transfer) (use keep in auto)
    moreover have "lookup h' y = Some (Group p g cs')"
      unfolding e using l2 by (simp add: lookup_def)
    ultimately show ?thesis by auto
  qed
qed

text \<open>
  C10. The copy that \<open>deepcopy\<close> makes of a Group with a parent is a new object whose
  parent field is the parent field of the original: the address of the original parent,
  which is untouched and does not list the copy. Its children are new objects, as many
  as the original has, and in a store without dangling references each of them is a deep
  copy of the corresponding child of the original: an object of the store made after
  the original tree, of the same class and with the same fields, the children of a
  Group copied in the same way, in their order. No object of the store that was there
  before the copy has changed. And a reduction by \<open>evaluate\<close> leaves every object that
  existed before the call as it was: what it writes are objects of the clone.
\<close>

theorem clone_keeps_original_parent:
  assumes "lookup h x = Some (Group (Some p) grouping children)"
    and "memo x = None"
    and "deepcopy n h memo x = Some (h1, memo1, y)"
  shows "y = length h \<and> take (length h) h1 = h \<and>
         (\<exists>children'. lookup h1 y = Some (Group (Some p) grouping children') \<and>
            length children' = length children \<and> (\<forall>c \<in> set children'. length h < c) \<and>
            (closed h \<longrightarrow>
               list_all2 (deep_copy (length h) (Suc (length h)) h1) children children')) \<and>
         (p < length h \<longrightarrow> lookup h1 p = lookup h p \<and> p \<noteq> y) \<and>
         (\<forall>func e r h2.
            evaluate n h x func = Raised e h2 \<or> evaluate n h x func = Returned r h2 \<longrightarrow>
            take (length h) h2 = h)"
proof -
  note g = deepcopy_Group [OF assms(3,2,1)]
  then have y: "y = length h" and t: "take (length h) h1 = h" by auto
  from g obtain children' where
    c: "lookup h1 y = Some (Group (Some p) grouping children')"
      "length children' = length children" "\<forall>c \<in> set children'. length h < c"
    by blast
  have "list_all2 (deep_copy (length h) (Suc (length h)) h1) children children'" if "closed h"
    using deepcopy_Group_children [OF that assms(3,2,1)] c(1) by auto
  moreover have "lookup h1 p = lookup h p \<and> p \<noteq> y" if "p < length h"
    using lookup_take [OF t that] that y by simp
  ultimately show ?thesis using y t c evaluate_unchanged by blast
qed

theorem clone_keeps_original_parent_witness:
  "\<exists>h1 memo1 c'.
     deepcopy 3
       [Group None None [1], Group (Some 0) (Some (Grouping ''('' '')'')) [2],
        Value (\<lambda>s. True) ''a''] Map.empty 1 = Some (h1, memo1, 3) \<and>
     lookup h1 3 = Some (Group (Some 0) (Some (Grouping ''('' '')'')) [c']) \<and>
     3 < c' \<and> lookup h1 c' = Some (Value (\<lambda>s. True) ''a'') \<and>
     lookup h1 2 = Some (Value (\<lambda>s. True) ''a'') \<and>
     lookup h1 0 = Some (Group None None [1])"
proof -
  let ?h = "[Group None None [1], Group (Some 0) (Some (Grouping ''('' '')'')) [2],
        Value (\<lambda>s. True) ''a''] :: bool heap"
  have "case deepcopy 3 ?h Map.empty 1 of Some r \<Rightarrow> True | None \<Rightarrow> False"
    by code_simp
  then obtain h1 memo1 y where d: "deepcopy 3 ?h Map.empty 1 = Some (h1, memo1, y)"
    by (auto split: option.splits)
  have l: "lookup ?h 1 = Some (Group (Some 0) (Some (Grouping ''('' '')'')) [2])"
    by (simp add: lookup_def)
  have m: "Map.empty (1::nat) = (None :: nat option)" by simp
  have len: "length ?h = 3" by simp
  have cl: "closed ?h" by (simp add: closed_def less_Suc_eq numeral_3_eq_3)
  note th = clone_keeps_original_parent [OF l m d, unfolded len]
  from th have y: "y = 3" and t: "take 3 h1 = ?h" by blast+
  from th cl obtain children' where
    c: "lookup h1 y = Some (Group (Some 0) (Some (Grouping ''('' '')'')) children')"
    and f: "\<forall>c \<in> set children'. 3 < c"
    and a: "list_all2 (deep_copy 3 (Suc 3) h1) [2] children'" by blast
  from a obtain c' where c': "children' = [c']" and dc: "deep_copy 3 (Suc 3) h1 2 c'"
    by (auto simp: list_all2_Cons1)
  from lookup_take [OF t, of 2] have l2: "lookup h1 2 = Some (Value (\<lambda>s. True) ''a'')"
    by (simp add: lookup_def)
  from lookup_take [OF t, of 0] have l0: "lookup h1 0 = Some (Group None None [1])"
    by (simp add: lookup_def)
  from dc l2 have lc: "lookup h1 c' = Some (Value (\<lambda>s. True) ''a'')"
    by (cases rule: deep_copy.cases) auto
  from f c' have "3 < c'" by simp
  with d c lc l2 l0 show ?thesis unfolding y c' by blast
qed

section \<open>Evaluating a parsed tree again\<close>

lemma shift_inj [simp]: "shift m k a = shift m k b \<longleftrightarrow> a = b"
  by (auto simp: shift_def)

lemma shift_obj_simps [simp]:
  "shift_obj m k (Group p g cs) = Group (map_option (shift m k) p) g (map (shift m k) cs)"
  "shift_obj m k (OperatorBinary rep bf) = OperatorBinary rep bf"
  "shift_obj m k (OperatorUnary rep uf) = OperatorUnary rep uf"
  "shift_obj m k (Value f v) = Value f v"
  "shift_obj m k (Result x c) = Result x c"
  by (simp_all add: shift_obj_def)

lemma sim_lookup:
  assumes "sim m k hA hB"
  shows "lookup hB (shift m k a) = map_option (shift_obj m k) (lookup hA a)"
proof (cases "a < length hA")
  case True
  with assms have "shift m k a < length hB" by (auto simp: sim_def shift_def)
  with True assms show ?thesis by (simp add: lookup_def sim_def)
next
  case False
  with assms have "\<not> shift m k a < length hB" by (auto simp: sim_def shift_def)
  with False show ?thesis by (simp add: lookup_def)
qed

lemma sim_length: "sim m k hA hB \<Longrightarrow> length hB = shift m k (length hA)"
  by (auto simp: sim_def shift_def)

lemma sim_update:
  assumes "sim m k hA hB"
  shows "sim m k (hA[a := ob]) (hB[shift m k a := shift_obj m k ob])"
  unfolding sim_def
proof (intro conjI allI impI)
  show "m \<le> length (hA[a := ob])" using assms by (simp add: sim_def)
  show "length (hB[shift m k a := shift_obj m k ob]) = length (hA[a := ob]) + k"
    using assms by (simp add: sim_def)
next
  fix b assume b: "b < length (hA[a := ob])"
  then have bl: "b < length hA" by simp
  with assms have sl: "shift m k b < length hB" by (auto simp: sim_def shift_def)
  show "hB[shift m k a := shift_obj m k ob] ! shift m k b = shift_obj m k (hA[a := ob] ! b)"
  proof (cases "b = a")
    case True
    with bl sl show ?thesis by simp
  next
    case False
    with bl assms show ?thesis by (simp add: sim_def)
  qed
qed

lemma sim_append:
  assumes "sim m k hA hB"
  shows "sim m k (hA @ [ob]) (hB @ [shift_obj m k ob])"
  unfolding sim_def
proof (intro conjI allI impI)
  show "m \<le> length (hA @ [ob])" using assms by (simp add: sim_def)
  show "length (hB @ [shift_obj m k ob]) = length (hA @ [ob]) + k"
    using assms by (simp add: sim_def)
next
  fix b assume b: "b < length (hA @ [ob])"
  show "(hB @ [shift_obj m k ob]) ! shift m k b = shift_obj m k ((hA @ [ob]) ! b)"
  proof (cases "b = length hA")
    case True
    with assms have "shift m k b = length hB" by (auto simp: sim_def shift_def)
    with True show ?thesis by simp
  next
    case False
    with b have bl: "b < length hA" by simp
    with assms have "shift m k b < length hB" by (auto simp: sim_def shift_def)
    with bl assms show ?thesis by (simp add: nth_append sim_def)
  qed
qed

lemma py_norm_map [simp]: "py_norm (map f xs) i = py_norm xs i"
  by (simp add: py_norm_def)

lemma py_getitem_map: "py_getitem (map f xs) i = map_option f (py_getitem xs i)"
  by (auto simp: py_getitem_def py_norm_def Let_def split: option.splits)

lemma py_setitem_map: "py_setitem (map f xs) i (f x) = map_option (map f) (py_setitem xs i x)"
  by (auto simp: py_setitem_def map_update split: option.splits)

lemma py_delitem_map: "py_delitem (map f xs) i = map_option (map f) (py_delitem xs i)"
  by (auto simp: py_delitem_def take_map drop_map split: option.splits)

lemma sim_lookup_Group:
  "sim m k hA hB \<Longrightarrow> lookup hA a = Some (Group p g cs) \<Longrightarrow>
   lookup hB (shift m k a) = Some (Group (map_option (shift m k) p) g (map (shift m k) cs))"
  by (simp add: sim_lookup)

lemma sim_items_getitem:
  "sim m k hA hB \<Longrightarrow>
   items_getitem hB (shift m k items) i = map_option (shift m k) (items_getitem hA items i)"
  by (cases "lookup hA items")
    (auto simp: items_getitem_def sim_lookup py_getitem_map split: obj.splits)

lemma sim_items_setitem:
  assumes s: "sim m k hA hB"
  shows "case items_setitem hA items i x of
           Inl e \<Rightarrow> items_setitem hB (shift m k items) i (shift m k x) = Inl e
         | Inr hA' \<Rightarrow> (\<exists>hB'. items_setitem hB (shift m k items) i (shift m k x) = Inr hB' \<and>
                          sim m k hA' hB')"
proof (cases "lookup hA items")
  case None
  then show ?thesis by (simp add: items_setitem_def sim_lookup [OF s])
next
  case (Some ob)
  show ?thesis
  proof (cases ob)
    case (Group p g cs)
    show ?thesis
    proof (cases "py_setitem cs i x")
      case None
      then show ?thesis using Some Group
        by (simp add: items_setitem_def sim_lookup [OF s] py_setitem_map)
    next
      case Some2: (Some cs')
      from sim_update [OF s, of items "Group p g cs'"]
      show ?thesis using Some Group Some2
        by (simp add: items_setitem_def sim_lookup [OF s] py_setitem_map)
    qed
  qed (use Some in \<open>simp_all add: items_setitem_def sim_lookup [OF s]\<close>)
qed

lemma sim_items_delitem:
  assumes s: "sim m k hA hB"
  shows "case items_delitem hA items i of
           Inl e \<Rightarrow> items_delitem hB (shift m k items) i = Inl e
         | Inr hA' \<Rightarrow> (\<exists>hB'. items_delitem hB (shift m k items) i = Inr hB' \<and>
                          sim m k hA' hB')"
proof (cases "lookup hA items")
  case None
  then show ?thesis by (simp add: items_delitem_def sim_lookup [OF s])
next
  case (Some ob)
  show ?thesis
  proof (cases ob)
    case (Group p g cs)
    show ?thesis
    proof (cases "py_delitem cs i")
      case None
      then show ?thesis using Some Group
        by (simp add: items_delitem_def sim_lookup [OF s] py_delitem_map)
    next
      case Some2: (Some cs')
      from sim_update [OF s, of items "Group p g cs'"]
      show ?thesis using Some Group Some2
        by (simp add: items_delitem_def sim_lookup [OF s] py_delitem_map)
    qed
  qed (use Some in \<open>simp_all add: items_delitem_def sim_lookup [OF s]\<close>)
qed


lemma sim_sum_len:
  assumes "\<And>c. lenfB (shift m k c) = lenfA c"
  shows "sum_len lenfB (map (shift m k) cs) = sum_len lenfA cs"
  by (induction cs) (simp_all add: assms split: option.splits sum.splits)

lemma sim_len:
  assumes s: "sim m k hA hB"
  shows "len n hB (shift m k x) = len n hA x"
proof (induction n arbitrary: x)
  case 0
  show ?case by simp
next
  case (Suc n)
  show ?case
  proof (cases "lookup hA x")
    case None
    then show ?thesis by (simp add: sim_lookup [OF s])
  next
    case (Some ob)
    then show ?thesis
      by (cases ob) (simp_all add: sim_lookup [OF s] sim_sum_len [of "len n hB" m k "len n hA", OF Suc.IH])
  qed
qed

lemma sim_parent_children_loop:
  assumes "\<And>c. attrB (shift m k c) = attrA c" and "\<And>c. lenfB (shift m k c) = lenfA c"
  shows "parent_children_loop attrB lenfB (shift m k self) (map (shift m k) pcs) acc =
         parent_children_loop attrA lenfA self pcs acc"
  by (induction pcs arbitrary: acc) (simp_all add: assms split: option.splits sum.splits)

lemma sim_Group_consumed_length:
  assumes s: "sim m k hA hB"
    and a: "\<And>c. attrB (shift m k c) = attrA c" and l: "\<And>c. lenfB (shift m k c) = lenfA c"
  shows "Group_consumed_length attrB lenfB hB (shift m k self) =
         Group_consumed_length attrA lenfA hA self"
proof (cases "lookup hA self")
  case None
  then show ?thesis by (simp add: Group_consumed_length_def sim_lookup [OF s])
next
  case (Some ob)
  show ?thesis
  proof (cases ob)
    case (Group parent grouping children)
    show ?thesis
    proof (cases children)
      case Nil
      then show ?thesis using Some Group
        by (simp add: Group_consumed_length_def sim_lookup [OF s])
    next
      case (Cons c0 rest)
      show ?thesis
      proof (cases parent)
        case None
        then show ?thesis using Some Group Cons
          by (simp add: Group_consumed_length_def sim_lookup [OF s] a
              split: option.splits sum.splits)
      next
        case Some2: (Some p)
        show ?thesis
        proof (cases "lookup hA p")
          case None
          then show ?thesis using Some Group Cons Some2
            by (simp add: Group_consumed_length_def sim_lookup [OF s] a
                split: option.splits sum.splits)
        next
          case Some3: (Some pob)
          show ?thesis
          proof (cases pob)
            case G2: (Group pp pg pcs)
            note pl = sim_parent_children_loop [of attrB m k attrA lenfB lenfA, OF a l]
            show ?thesis
            proof (cases pcs)
              case Nil
              then show ?thesis using Some Group Cons Some2 Some3 G2
                by (simp add: Group_consumed_length_def sim_lookup [OF s] a
                    split: option.splits sum.splits)
            next
              case C2: (Cons pc0 prest)
              have "parent_children_loop attrB lenfB (shift m k self)
                      (shift m k pc0 # map (shift m k) prest) acc =
                    parent_children_loop attrA lenfA self (pc0 # prest) acc" for acc
                using pl [of self "pc0 # prest" acc] by simp
              then show ?thesis using Some Group Cons Some2 Some3 G2 C2
                by (simp add: Group_consumed_length_def sim_lookup [OF s] a
                    del: parent_children_loop.simps split: option.splits sum.splits)
            qed
          qed (use Some Group Cons Some2 Some3 in
              \<open>simp_all add: Group_consumed_length_def sim_lookup [OF s] a
                  split: option.splits sum.splits\<close>)
        qed
      qed
    qed
  qed (use Some in \<open>simp_all add: Group_consumed_length_def sim_lookup [OF s]\<close>)
qed

lemma sim_consumed_length:
  assumes s: "sim m k hA hB"
  shows "consumed_length n hB (shift m k x) = consumed_length n hA x"
proof (induction n arbitrary: x)
  case 0
  show ?case by simp
next
  case (Suc n)
  note gc = sim_Group_consumed_length [OF s, of "consumed_length n hB" "consumed_length n hA"
      "len n hB" "len n hA", OF Suc.IH sim_len [OF s]]
  show ?case
  proof (cases "lookup hA x")
    case None
    then show ?thesis by (simp add: sim_lookup [OF s])
  next
    case (Some ob)
    then show ?thesis
      by (cases ob) (simp_all add: sim_lookup [OF s] gc)
  qed
qed

lemma sim_read_result:
  assumes s: "sim m k hA hB"
  shows "read_result n hB (shift m k x) = read_result n hA x"
proof (cases "lookup hA x")
  case None
  then show ?thesis by (simp add: read_result_def sim_lookup [OF s])
next
  case (Some ob)
  then show ?thesis
    by (cases ob) (simp_all add: read_result_def sim_lookup [OF s] sim_consumed_length [OF s])
qed

lemma sim_is_Result:
  "sim m k hA hB \<Longrightarrow> is_Result (lookup hB (shift m k x)) = is_Result (lookup hA x)"
  by (cases "lookup hA x")
    (auto simp: is_Result_def sim_lookup shift_obj_def split: obj.splits)

lemma sim_out_OutOfFuel [simp]: "sim_out m k R OutOfFuel rB \<longleftrightarrow> rB = OutOfFuel"
  by (simp add: sim_out_def)

lemma sim_out_Raised [simp]:
  "sim_out m k R (Raised e hA) rB \<longleftrightarrow> (\<exists>hB. rB = Raised e hB \<and> sim m k hA hB)"
  by (simp add: sim_out_def)

lemma sim_out_Returned [simp]:
  "sim_out m k R (Returned x hA) rB \<longleftrightarrow> (\<exists>y hB. rB = Returned y hB \<and> R x y \<and> sim m k hA hB)"
  by (simp add: sim_out_def)

lemma sim_store_result:
  assumes s: "sim m k hA1 hB1"
    and kk: "\<And>hA4 hB4. sim m k hA4 hB4 \<Longrightarrow> sim_out m k R (kA hA4) (kB hB4)"
  shows "sim_out m k R
           (let result = length hA1; h2 = hA1 @ [Result v c]
            in case items_setitem h2 items idx result of
                 Inl e \<Rightarrow> Raised e h2
               | Inr h3 \<Rightarrow>
                   (case items_delitem h3 items j of
                      Inl e \<Rightarrow> Raised e h3
                    | Inr h4 \<Rightarrow> kA h4))
           (let result = length hB1; h2 = hB1 @ [Result v c]
            in case items_setitem h2 (shift m k items) idx result of
                 Inl e \<Rightarrow> Raised e h2
               | Inr h3 \<Rightarrow>
                   (case items_delitem h3 (shift m k items) j of
                      Inl e \<Rightarrow> Raised e h3
                    | Inr h4 \<Rightarrow> kB h4))"
proof -
  let ?hA2 = "hA1 @ [Result v c]" and ?hB2 = "hB1 @ [Result v c]"
  have s2: "sim m k ?hA2 ?hB2" using sim_append [OF s, of "Result v c"] by simp
  note lb = sim_length [OF s]
  note st = sim_items_setitem [OF s2, of items idx "length hA1"]
  show ?thesis
  proof (cases "items_setitem ?hA2 items idx (length hA1)")
    case (Inl e)
    with st s2 show ?thesis by (simp add: Let_def lb)
  next
    case (Inr hA3)
    with st obtain hB3 where
      b3: "items_setitem ?hB2 (shift m k items) idx (shift m k (length hA1)) = Inr hB3"
      and s3: "sim m k hA3 hB3" by auto
    note dl = sim_items_delitem [OF s3, of items j]
    show ?thesis
    proof (cases "items_delitem hA3 items j")
      case (Inl e)
      with dl s3 Inr b3 show ?thesis by (simp add: Let_def lb)
    next
      case Inr4: (Inr hA4)
      with dl obtain hB4 where b4: "items_delitem hB3 (shift m k items) j = Inr hB4"
        and s4: "sim m k hA4 hB4" by auto
      from kk [OF s4] Inr b3 Inr4 b4 show ?thesis by (simp add: Let_def lb)
    qed
  qed
qed

lemma sim_Value_consume:
  assumes s: "sim m k hA hB"
  shows "sim_out m k (=) (Value_consume hA self items idx func)
           (Value_consume hB (shift m k self) (shift m k items) idx func)"
proof (cases "lookup hA self")
  case None
  then show ?thesis using s by (simp add: Value_consume_def sim_lookup [OF s])
next
  case (Some ob)
  show ?thesis
  proof (cases ob)
    case (Value sfunc svalue)
    let ?f = "case func of None \<Rightarrow> sfunc | Some f' \<Rightarrow> f'"
    let ?hA1 = "hA[self := Value ?f svalue]"
    let ?hB1 = "hB[shift m k self := Value ?f svalue]"
    have s1: "sim m k ?hA1 ?hB1" using sim_update [OF s, of self "Value ?f svalue"] by simp
    let ?r = "Result (?f svalue) (length svalue)"
    have s2: "sim m k (?hA1 @ [?r]) (?hB1 @ [?r])" using sim_append [OF s1, of ?r] by simp
    note lb = sim_length [OF s1]
    note st = sim_items_setitem [OF s2, of items idx "length ?hA1"]
    show ?thesis
    proof (cases "items_setitem (?hA1 @ [?r]) items idx (length ?hA1)")
      case (Inl e)
      with st s2 show ?thesis using Some Value lb
        by (simp add: Value_consume_def sim_lookup [OF s] Let_def)
    next
      case (Inr hA3)
      with st show ?thesis using Some Value lb
        by (auto simp: Value_consume_def sim_lookup [OF s] Let_def)
    qed
  qed (use Some s in \<open>simp_all add: Value_consume_def sim_lookup [OF s]\<close>)
qed

lemma sim_OperatorUnary_consume:
  assumes s: "sim m k hA hB"
    and rec: "\<And>c. sim_out m k (=) (recA hA c items (idx + 1) func)
                 (recB hB (shift m k c) (shift m k items) (idx + 1) func)"
  shows "sim_out m k (=) (OperatorUnary_consume recA n rep uf hA items idx func)
           (OperatorUnary_consume recB n rep uf hB (shift m k items) idx func)"
proof (cases "items_getitem hA items (idx + 1)")
  case None
  then show ?thesis using s
    by (simp add: OperatorUnary_consume_def sim_items_getitem [OF s])
next
  case (Some right)
  note gB = sim_items_getitem [OF s, of items "idx + 1", unfolded Some, simplified]
  show ?thesis
  proof (cases "recA hA right items (idx + 1) func")
    case OutOfFuel
    with rec [of right] show ?thesis using Some gB
      by (simp add: OperatorUnary_consume_def)
  next
    case (Raised e hA1)
    with rec [of right] show ?thesis using Some gB
      by (auto simp: OperatorUnary_consume_def)
  next
    case (Returned x hA1)
    with rec [of right] obtain y hB1 where
      rb: "recB hB (shift m k right) (shift m k items) (idx + 1) func = Returned y hB1"
      and s1: "sim m k hA1 hB1" by auto
    note g1 = sim_items_getitem [OF s1, of items "idx + 1"]
    show ?thesis
    proof (cases "items_getitem hA1 items (idx + 1)")
      case None
      then show ?thesis using Some gB Returned rb s1 g1
        by (simp add: OperatorUnary_consume_def)
    next
      case Some2: (Some r)
      note rr = sim_read_result [OF s1, of n r]
      show ?thesis
      proof (cases "read_result n hA1 r")
        case None
        then show ?thesis using Some gB Returned rb s1 g1 Some2 rr
          by (simp add: OperatorUnary_consume_def)
      next
        case Some3: (Some q)
        show ?thesis
        proof (cases q)
          case (Inl e)
          then show ?thesis using Some gB Returned rb s1 g1 Some2 rr Some3
            by (simp add: OperatorUnary_consume_def)
        next
          case (Inr vc)
          obtain v c where vc: "vc = (v, c)" by (cases vc)
          have "sim_out m k (=)
           (let result = length hA1; h2 = hA1 @ [Result (uf v) (length rep + c)]
            in case items_setitem h2 items idx result of
                 Inl e \<Rightarrow> Raised e h2
               | Inr h3 \<Rightarrow>
                   (case items_delitem h3 items (idx + 1) of
                      Inl e \<Rightarrow> Raised e h3
                    | Inr h4 \<Rightarrow> Returned idx h4))
           (let result = length hB1; h2 = hB1 @ [Result (uf v) (length rep + c)]
            in case items_setitem h2 (shift m k items) idx result of
                 Inl e \<Rightarrow> Raised e h2
               | Inr h3 \<Rightarrow>
                   (case items_delitem h3 (shift m k items) (idx + 1) of
                      Inl e \<Rightarrow> Raised e h3
                    | Inr h4 \<Rightarrow> Returned idx h4))"
            by (rule sim_store_result [OF s1]) simp
          then show ?thesis using Some gB Returned rb g1 Some2 rr Some3 Inr vc
            by (simp add: OperatorUnary_consume_def)
        qed
      qed
    qed
  qed
qed


lemma sim_binary_operands:
  "sim m k hA hB \<Longrightarrow>
   binary_operands hB (shift m k items) idx =
     map_option (map_prod (shift m k) (shift m k)) (binary_operands hA items idx)"
  by (auto simp: binary_operands_def sim_items_getitem split: option.splits)

lemma sim_delete_left:
  assumes s: "sim m k hA4 hB4"
  shows "sim_out m k (=)
           (case items_delitem hA4 items j of
              Inl e \<Rightarrow> Raised e hA4
            | Inr h5 \<Rightarrow> Returned x h5)
           (case items_delitem hB4 (shift m k items) j of
              Inl e \<Rightarrow> Raised e hB4
            | Inr h5 \<Rightarrow> Returned x h5)"
  using sim_items_delitem [OF s, of items j] s
  by (cases "items_delitem hA4 items j") auto

lemma sim_OperatorBinary_consume:
  assumes s: "sim m k hA hB"
    and rec: "\<And>c. sim_out m k (=) (recA hA c items (idx + 1) func)
                 (recB hB (shift m k c) (shift m k items) (idx + 1) func)"
  shows "sim_out m k (=) (OperatorBinary_consume recA n rep bf hA items idx func)
           (OperatorBinary_consume recB n rep bf hB (shift m k items) idx func)"
proof (cases "binary_operands hA items idx")
  case None
  then show ?thesis using s
    by (simp add: OperatorBinary_consume_def sim_binary_operands [OF s])
next
  case (Some lr)
  obtain left right where lr: "lr = (left, right)" by (cases lr)
  have bB: "binary_operands hB (shift m k items) idx = Some (shift m k left, shift m k right)"
    using Some lr by (simp add: sim_binary_operands [OF s])
  note ir = sim_is_Result [OF s, of left]
  show ?thesis
  proof (cases "is_Result (lookup hA left)")
    case False
    then show ?thesis using Some lr bB ir s by (simp add: OperatorBinary_consume_def)
  next
    case True
    show ?thesis
    proof (cases "recA hA right items (idx + 1) func")
      case OutOfFuel
      with rec [of right] show ?thesis using Some lr bB ir True
        by (simp add: OperatorBinary_consume_def)
    next
      case (Raised e hA1)
      with rec [of right] show ?thesis using Some lr bB ir True
        by (auto simp: OperatorBinary_consume_def)
    next
      case (Returned x hA1)
      with rec [of right] obtain y hB1 where
        rb: "recB hB (shift m k right) (shift m k items) (idx + 1) func = Returned y hB1"
        and s1: "sim m k hA1 hB1" by auto
      note l1 = sim_lookup [OF s1, of left]
      show ?thesis
      proof (cases "\<exists>lv lc. lookup hA1 left = Some (Result lv lc)")
        case False
        have a: "OperatorBinary_consume recA n rep bf hA items idx func =
                   Raised AttributeError hA1"
        proof (cases "lookup hA1 left")
          case None
          then show ?thesis using Some lr True Returned
            by (simp add: OperatorBinary_consume_def)
        next
          case Some1: (Some ob)
          with False show ?thesis using Some lr True Returned
            by (cases ob) (simp_all add: OperatorBinary_consume_def)
        qed
        have b: "OperatorBinary_consume recB n rep bf hB (shift m k items) idx func =
                   Raised AttributeError hB1"
        proof (cases "lookup hA1 left")
          case None
          then show ?thesis using bB ir True rb l1
            by (simp add: OperatorBinary_consume_def)
        next
          case Some1: (Some ob)
          with False show ?thesis using bB ir True rb l1
            by (cases ob) (simp_all add: OperatorBinary_consume_def)
        qed
        show ?thesis unfolding a b using s1 by simp
      next
        case T2: True
        then obtain lv lc where ll: "lookup hA1 left = Some (Result lv lc)" by blast
        then have llB: "lookup hB1 (shift m k left) = Some (Result lv lc)" using l1 by simp
        note g1 = sim_items_getitem [OF s1, of items "idx + 1"]
        show ?thesis
        proof (cases "items_getitem hA1 items (idx + 1)")
          case None
          then show ?thesis using Some lr bB ir True Returned rb s1 g1 ll llB
            by (simp add: OperatorBinary_consume_def)
        next
          case Some2: (Some r)
          note rr = sim_read_result [OF s1, of n r]
          show ?thesis
          proof (cases "read_result n hA1 r")
            case None
            then show ?thesis using Some lr bB ir True Returned rb s1 g1 ll llB Some2 rr
              by (simp add: OperatorBinary_consume_def)
          next
            case Some3: (Some q)
            show ?thesis
            proof (cases q)
              case (Inl e)
              then show ?thesis using Some lr bB ir True Returned rb s1 g1 ll llB Some2 rr Some3
                by (simp add: OperatorBinary_consume_def)
            next
              case (Inr vc)
              obtain rv rc where vc: "vc = (rv, rc)" by (cases vc)
              have "sim_out m k (=)
               (let result = length hA1; h2 = hA1 @ [Result (bf lv rv) (lc + length rep + rc)]
                in case items_setitem h2 items idx result of
                     Inl e \<Rightarrow> Raised e h2
                   | Inr h3 \<Rightarrow>
                       (case items_delitem h3 items (idx + 1) of
                          Inl e \<Rightarrow> Raised e h3
                        | Inr h4 \<Rightarrow>
                            (case items_delitem h4 items (idx - 1) of
                               Inl e \<Rightarrow> Raised e h4
                             | Inr h5 \<Rightarrow> Returned (idx - 1) h5)))
               (let result = length hB1; h2 = hB1 @ [Result (bf lv rv) (lc + length rep + rc)]
                in case items_setitem h2 (shift m k items) idx result of
                     Inl e \<Rightarrow> Raised e h2
                   | Inr h3 \<Rightarrow>
                       (case items_delitem h3 (shift m k items) (idx + 1) of
                          Inl e \<Rightarrow> Raised e h3
                        | Inr h4 \<Rightarrow>
                            (case items_delitem h4 (shift m k items) (idx - 1) of
                               Inl e \<Rightarrow> Raised e h4
                             | Inr h5 \<Rightarrow> Returned (idx - 1) h5)))"
                by (rule sim_store_result [OF s1 sim_delete_left])
              then show ?thesis
                using Some lr bB ir True Returned rb g1 ll llB Some2 rr Some3 Inr vc
                by (simp add: OperatorBinary_consume_def)
            qed
          qed
        qed
      qed
    qed
  qed
qed

lemma sim_Group_consume_loop:
  assumes rec: "\<And>hA' hB' c ci. sim m k hA' hB' \<Longrightarrow>
      sim_out m k (=) (recA hA' c self ci func) (recB hB' (shift m k c) (shift m k self) ci func)"
  shows "sim m k hA hB \<Longrightarrow>
         sim_out m k (=) (Group_consume_loop recA n j hA self child_i func)
           (Group_consume_loop recB n j hB (shift m k self) child_i func)"
proof (induction j arbitrary: hA hB child_i)
  case 0
  show ?case by simp
next
  case (Suc j)
  note s = Suc.prems
  note lk = sim_lookup [OF s, of self]
  show ?case
  proof (cases "\<exists>p g cs. lookup hA self = Some (Group p g cs)")
    case False
    have "Group_consume_loop recA n (Suc j) hA self child_i func = Raised AttributeError hA"
      using False by (auto split: option.splits obj.splits)
    moreover have "Group_consume_loop recB n (Suc j) hB (shift m k self) child_i func =
        Raised AttributeError hB"
      using False lk by (cases "lookup hA self") (auto simp: shift_obj_def split: obj.splits)
    ultimately show ?thesis using s by simp
  next
    case True
    then obtain p g cs where l: "lookup hA self = Some (Group p g cs)" by blast
    then have lB: "lookup hB (shift m k self) =
        Some (Group (map_option (shift m k) p) g (map (shift m k) cs))" using lk by simp
    show ?thesis
    proof (cases "child_i < int (length cs)")
      case False
      then show ?thesis using l lB s by simp
    next
      case lt: True
      show ?thesis
      proof (cases "py_getitem cs child_i")
        case None
        then show ?thesis using l lB lt s by (simp add: py_getitem_map)
      next
        case (Some child)
        then have cB: "py_getitem (map (shift m k) cs) child_i = Some (shift m k child)"
          by (simp add: py_getitem_map)
        note r = rec [OF s, of child child_i]
        show ?thesis
        proof (cases "recA hA child self child_i func")
          case OutOfFuel
          with r show ?thesis using l lB lt Some cB by simp
        next
          case (Raised e hA1)
          with r obtain hB1 where
            rb: "recB hB (shift m k child) (shift m k self) child_i func = Raised e hB1"
            and s1: "sim m k hA1 hB1" by auto
          note cl = sim_consumed_length [OF s1, of n self]
          show ?thesis using l lB lt Some cB Raised rb s1 cl
            by (auto split: error.splits option.splits sum.splits)
        next
          case (Returned ci hA1)
          with r obtain hB1 where
            rb: "recB hB (shift m k child) (shift m k self) child_i func = Returned ci hB1"
            and s1: "sim m k hA1 hB1" by auto
          note cl = sim_consumed_length [OF s1, of n self]
          show ?thesis
          proof (cases "ci = 0")
            case True
            from Suc.IH [OF s1, of "ci + 1"] show ?thesis
              using l lB lt Some cB Returned rb True by simp
          next
            case False
            then show ?thesis using l lB lt Some cB Returned rb s1 cl
              by (auto split: option.splits sum.splits)
          qed
        qed
      qed
    qed
  qed
qed


lemma sim_Group_consume:
  assumes s: "sim m k hA hB"
    and rec: "\<And>hA' hB' c ci. sim m k hA' hB' \<Longrightarrow>
      sim_out m k (=) (recA hA' c self ci func) (recB hB' (shift m k c) (shift m k self) ci func)"
  shows "sim_out m k (ret_rel m k) (Group_consume recA n hA self ctx func)
           (Group_consume recB n hB (shift m k self)
              (map_option (map_prod (shift m k) id) ctx) func)"
proof -
  note lp = sim_Group_consume_loop [of m k recA self func recB, OF rec s, of n n 0]
  show ?thesis
  proof (cases "Group_consume_loop recA n n hA self 0 func")
    case OutOfFuel
    with lp show ?thesis by (simp add: Group_consume_def)
  next
    case (Raised e hA1)
    with lp show ?thesis by (auto simp: Group_consume_def)
  next
    case (Returned u hA1)
    with lp obtain hB1 where
      lb: "Group_consume_loop recB n n hB (shift m k self) 0 func = Returned u hB1"
      and s1: "sim m k hA1 hB1" by auto
    note lk = sim_lookup [OF s1, of self]
    show ?thesis
    proof (cases "\<exists>p g res cs. lookup hA1 self = Some (Group p g (res # cs))")
      case False
      have a: "\<exists>e. Group_consume recA n hA self ctx func = Raised e hA1 \<and>
                 Group_consume recB n hB (shift m k self)
                   (map_option (map_prod (shift m k) id) ctx) func = Raised e hB1"
      proof (cases "lookup hA1 self")
        case None
        then show ?thesis using Returned lb lk by (simp add: Group_consume_def)
      next
        case (Some ob)
        show ?thesis
        proof (cases ob)
          case (Group p g cs)
          with False Some have "cs = []" by (cases cs) auto
          then show ?thesis using Returned lb lk Some Group by (simp add: Group_consume_def)
        qed (use Returned lb lk Some in \<open>simp_all add: Group_consume_def\<close>)
      qed
      then show ?thesis using s1 by auto
    next
      case True
      then obtain p g res cs where l: "lookup hA1 self = Some (Group p g (res # cs))" by blast
      then have lB: "lookup hB1 (shift m k self) =
          Some (Group (map_option (shift m k) p) g (shift m k res # map (shift m k) cs))"
        using lk by simp
      let ?updA = "case g of
                    None \<Rightarrow> Some (Inr hA1)
                  | Some gr \<Rightarrow>
                      (case read_result n hA1 res of
                         None \<Rightarrow> None
                       | Some (Inl e) \<Rightarrow> Some (Inl e)
                       | Some (Inr (v, c)) \<Rightarrow>
                           Some (Inr (hA1[res := Result v (c + Grouping_len gr)])))"
      let ?updB = "case g of
                    None \<Rightarrow> Some (Inr hB1)
                  | Some gr \<Rightarrow>
                      (case read_result n hB1 (shift m k res) of
                         None \<Rightarrow> None
                       | Some (Inl e) \<Rightarrow> Some (Inl e)
                       | Some (Inr (v, c)) \<Rightarrow>
                           Some (Inr (hB1[shift m k res := Result v (c + Grouping_len gr)])))"
      have ua: "Group_consume recA n hA self ctx func =
          (case ?updA of
             None \<Rightarrow> OutOfFuel
           | Some (Inl e) \<Rightarrow> Raised e hA1
           | Some (Inr h2) \<Rightarrow>
               (case ctx of
                  None \<Rightarrow> Returned (Inl res) h2
                | Some (items, i) \<Rightarrow>
                    (case items_setitem h2 items i res of
                       Inl e \<Rightarrow> Raised e h2
                     | Inr h3 \<Rightarrow> Returned (Inr i) h3)))"
        using Returned l by (simp add: Group_consume_def)
      have ub: "Group_consume recB n hB (shift m k self)
                  (map_option (map_prod (shift m k) id) ctx) func =
          (case ?updB of
             None \<Rightarrow> OutOfFuel
           | Some (Inl e) \<Rightarrow> Raised e hB1
           | Some (Inr h2) \<Rightarrow>
               (case map_option (map_prod (shift m k) id) ctx of
                  None \<Rightarrow> Returned (Inl (shift m k res)) h2
                | Some (items, i) \<Rightarrow>
                    (case items_setitem h2 items i (shift m k res) of
                       Inl e \<Rightarrow> Raised e h2
                     | Inr h3 \<Rightarrow> Returned (Inr i) h3)))"
        using lb lB by (simp add: Group_consume_def)
      have upd: "(?updA = None \<longrightarrow> ?updB = None) \<and>
                 (\<forall>e. ?updA = Some (Inl e) \<longrightarrow> ?updB = Some (Inl e)) \<and>
                 (\<forall>h2. ?updA = Some (Inr h2) \<longrightarrow> (\<exists>h2'. ?updB = Some (Inr h2') \<and> sim m k h2 h2'))"
      proof (cases g)
        case None
        then show ?thesis using s1 by simp
      next
        case (Some gr)
        show ?thesis
        proof (cases "read_result n hA1 res")
          case None
          then show ?thesis using Some by (simp add: sim_read_result [OF s1])
        next
          case S2: (Some q)
          show ?thesis
          proof (cases q)
            case (Inl e)
            then show ?thesis using Some S2 by (simp add: sim_read_result [OF s1])
          next
            case (Inr vc)
            obtain v c where vc: "vc = (v, c)" by (cases vc)
            from sim_update [OF s1, of res "Result v (c + Grouping_len gr)"]
            show ?thesis using Some S2 Inr vc by (simp add: sim_read_result [OF s1])
          qed
        qed
      qed
      show ?thesis
      proof (cases ?updA)
        case None
        with upd have "?updB = None" by blast
        with None show ?thesis unfolding ua ub by simp
      next
        case (Some q)
        show ?thesis
        proof (cases q)
          case (Inl e)
          with Some upd have "?updB = Some (Inl e)" by blast
          with Some Inl s1 show ?thesis unfolding ua ub by simp
        next
          case (Inr h2)
          with Some upd obtain h2' where b2: "?updB = Some (Inr h2')" and s2: "sim m k h2 h2'"
            by blast
          show ?thesis
          proof (cases ctx)
            case None
            with Some Inr b2 s2 show ?thesis unfolding ua ub by (simp add: ret_rel_def)
          next
            case S3: (Some ii)
            obtain items i where ii: "ii = (items, i)" by (cases ii)
            note st = sim_items_setitem [OF s2, of items i res]
            show ?thesis
            proof (cases "items_setitem h2 items i res")
              case I1: (Inl e)
              with st Some Inr b2 s2 S3 ii show ?thesis unfolding ua ub by simp
            next
              case I2: (Inr h3)
              with st Some Inr b2 S3 ii show ?thesis unfolding ua ub
                by (auto simp: ret_rel_def)
            qed
          qed
        qed
      qed
    qed
  qed
qed

lemma sim_consume:
  "sim m k hA hB \<Longrightarrow>
   sim_out m k (=) (consume n hA self items idx func)
     (consume n hB (shift m k self) (shift m k items) idx func)"
proof (induction n arbitrary: hA hB self items idx)
  case 0
  show ?case by simp
next
  case (Suc n)
  note s = Suc.prems
  note lk = sim_lookup [OF s, of self]
  show ?case
  proof (cases "lookup hA self")
    case None
    then show ?thesis using lk s by simp
  next
    case (Some ob)
    show ?thesis
    proof (cases ob)
      case (Group p g cs)
      have g: "sim_out m k (ret_rel m k)
          (Group_consume (consume n) n hA self (Some (items, idx)) func)
          (Group_consume (consume n) n hB (shift m k self)
             (map_option (map_prod (shift m k) id) (Some (items, idx))) func)"
        by (rule sim_Group_consume [OF s]) (rule Suc.IH)
      show ?thesis
      proof (cases "Group_consume (consume n) n hA self (Some (items, idx)) func")
        case OutOfFuel
        with g show ?thesis using Some Group lk by simp
      next
        case (Raised e h1)
        with g show ?thesis using Some Group lk by auto
      next
        case (Returned r h1)
        with g show ?thesis using Some Group lk
          by (cases r) (auto simp: ret_rel_def)
      qed
    next
      case (OperatorBinary rep bf)
      have "sim_out m k (=) (OperatorBinary_consume (consume n) n rep bf hA items idx func)
           (OperatorBinary_consume (consume n) n rep bf hB (shift m k items) idx func)"
        by (rule sim_OperatorBinary_consume [OF s]) (rule Suc.IH [OF s])
      then show ?thesis using Some OperatorBinary lk by simp
    next
      case (OperatorUnary rep uf)
      have "sim_out m k (=) (OperatorUnary_consume (consume n) n rep uf hA items idx func)
           (OperatorUnary_consume (consume n) n rep uf hB (shift m k items) idx func)"
        by (rule sim_OperatorUnary_consume [OF s]) (rule Suc.IH [OF s])
      then show ?thesis using Some OperatorUnary lk by simp
    next
      case (Value vf v)
      then show ?thesis using Some lk sim_Value_consume [OF s, of self items idx func] by simp
    next
      case (Result v c)
      then show ?thesis using Some lk s by simp
    qed
  qed
qed

lemma memo_rel_empty: "memo_rel m k Map.empty Map.empty"
  by (simp add: memo_rel_def)

lemma memo_rel_upd:
  "memo_rel m k memoA memoB \<Longrightarrow>
   memo_rel m k (memoA(x \<mapsto> y)) (memoB(shift m k x \<mapsto> shift m k y))"
  by (simp add: memo_rel_def)

lemma sim_deepcopy_list:
  assumes rec: "\<And>hA hB memoA memoB x. sim m k hA hB \<Longrightarrow> memo_rel m k memoA memoB \<Longrightarrow>
      copy_rel m k (recA hA memoA x) (recB hB memoB (shift m k x))"
  shows "sim m k hA hB \<Longrightarrow> memo_rel m k memoA memoB \<Longrightarrow>
     (case deepcopy_list recA hA memoA xs of
        None \<Rightarrow> deepcopy_list recB hB memoB (map (shift m k) xs) = None
      | Some (hA', memoA', ys) \<Rightarrow>
          (\<exists>hB' memoB'. deepcopy_list recB hB memoB (map (shift m k) xs) =
               Some (hB', memoB', map (shift m k) ys) \<and>
             sim m k hA' hB' \<and> memo_rel m k memoA' memoB'))"
proof (induction xs arbitrary: hA hB memoA memoB)
  case Nil
  then show ?case by simp
next
  case (Cons x xs)
  note r = rec [OF Cons.prems, of x]
  show ?case
  proof (cases "recA hA memoA x")
    case None
    with r show ?thesis by (simp add: copy_rel_def)
  next
    case (Some q)
    obtain hA1 memoA1 y where q: "q = (hA1, memoA1, y)" by (cases q)
    with r Some obtain hB1 memoB1 where
      b: "recB hB memoB (shift m k x) = Some (hB1, memoB1, shift m k y)"
      and s1: "sim m k hA1 hB1" and m1: "memo_rel m k memoA1 memoB1"
      by (auto simp: copy_rel_def)
    note ih = Cons.IH [OF s1 m1]
    show ?thesis
    proof (cases "deepcopy_list recA hA1 memoA1 xs")
      case None
      with ih show ?thesis using Some q b by simp
    next
      case S2: (Some q2)
      obtain hA2 memoA2 ys where q2: "q2 = (hA2, memoA2, ys)" by (cases q2)
      with ih S2 show ?thesis using Some q b by auto
    qed
  qed
qed

lemma sim_deepcopy:
  "sim m k hA hB \<Longrightarrow> memo_rel m k memoA memoB \<Longrightarrow>
   copy_rel m k (deepcopy n hA memoA x) (deepcopy n hB memoB (shift m k x))"
proof (induction n arbitrary: hA hB memoA memoB x)
  case 0
  show ?case by (simp add: copy_rel_def)
next
  case (Suc n)
  note s = Suc.prems(1) and mr = Suc.prems(2)
  have mB: "memoB (shift m k x) = map_option (shift m k) (memoA x)"
    using mr by (simp add: memo_rel_def)
  note lk = sim_lookup [OF s, of x]
  note lb = sim_length [OF s]
  show ?case
  proof (cases "memoA x")
    case (Some y)
    then show ?thesis using mB s mr by (simp add: copy_rel_def)
  next
    case None
    show ?thesis
    proof (cases "lookup hA x")
      case N2: None
      then show ?thesis using None mB lk s mr by (simp add: copy_rel_def)
    next
      case (Some ob)
      have leaf: ?thesis
        if "deepcopy (Suc n) hA memoA x = Some (hA @ [ob], memoA(x \<mapsto> length hA), length hA)"
          and "deepcopy (Suc n) hB memoB (shift m k x) =
                 Some (hB @ [ob], memoB(shift m k x \<mapsto> length hB), length hB)"
          and "shift_obj m k ob = ob"
      proof -
        from sim_append [OF s, of ob] that(3) have "sim m k (hA @ [ob]) (hB @ [ob])" by simp
        moreover from memo_rel_upd [OF mr, of x "length hA"]
        have "memo_rel m k (memoA(x \<mapsto> length hA)) (memoB(shift m k x \<mapsto> length hB))"
          by (simp add: lb)
        ultimately show ?thesis unfolding that(1,2) by (simp add: copy_rel_def lb)
      qed
      show ?thesis
      proof (cases ob)
        case (Group p g cs)
        let ?hA1 = "hA @ [Group p g []]"
        let ?p' = "map_option (shift m k) p"
        let ?hB1 = "hB @ [Group ?p' g []]"
        have s1: "sim m k ?hA1 ?hB1" using sim_append [OF s, of "Group p g []"] by simp
        have ea: "deepcopy (Suc n) hA memoA x =
            (case deepcopy_list (deepcopy n) ?hA1 Map.empty cs of
               None \<Rightarrow> None
             | Some (h2, memo2, cs') \<Rightarrow>
                 Some (h2[length hA := Group p g cs'], memoA(x \<mapsto> length hA), length hA))"
          using None Some Group by (simp add: Let_def)
        have eb: "deepcopy (Suc n) hB memoB (shift m k x) =
            (case deepcopy_list (deepcopy n) ?hB1 Map.empty (map (shift m k) cs) of
               None \<Rightarrow> None
             | Some (h2, memo2, cs') \<Rightarrow>
                 Some (h2[length hB := Group ?p' g cs'],
                       memoB(shift m k x \<mapsto> length hB), length hB))"
          using None Some Group mB lk by (simp add: Let_def)
        note dl = sim_deepcopy_list [of m k "deepcopy n" "deepcopy n", OF Suc.IH s1 memo_rel_empty,
            of cs]
        show ?thesis
        proof (cases "deepcopy_list (deepcopy n) ?hA1 Map.empty cs")
          case N3: None
          with dl show ?thesis unfolding ea eb by (simp add: copy_rel_def)
        next
          case S3: (Some q)
          obtain hA2 memoA2 cs' where q: "q = (hA2, memoA2, cs')" by (cases q)
          with dl S3 obtain hB2 memoB2 where
            b: "deepcopy_list (deepcopy n) ?hB1 Map.empty (map (shift m k) cs) =
                  Some (hB2, memoB2, map (shift m k) cs')"
            and s2: "sim m k hA2 hB2" by auto
          from sim_update [OF s2, of "length hA" "Group p g cs'"]
          have "sim m k (hA2[length hA := Group p g cs'])
                  (hB2[length hB := Group ?p' g (map (shift m k) cs')])"
            by (simp add: lb)
          moreover from memo_rel_upd [OF mr, of x "length hA"]
          have "memo_rel m k (memoA(x \<mapsto> length hA)) (memoB(shift m k x \<mapsto> length hB))"
            by (simp add: lb)
          ultimately show ?thesis unfolding ea eb using S3 q b
            by (simp add: copy_rel_def lb)
        qed
      next
        case (OperatorBinary rep bf)
        show ?thesis
          by (rule leaf) (use None Some OperatorBinary mB lk in simp_all)
      next
        case (OperatorUnary rep uf)
        show ?thesis
          by (rule leaf) (use None Some OperatorUnary mB lk in simp_all)
      next
        case (Value vf v)
        show ?thesis
          by (rule leaf) (use None Some Value mB lk in simp_all)
      next
        case (Result v c)
        show ?thesis
          by (rule leaf) (use None Some Result mB lk in simp_all)
      qed
    qed
  qed
qed

lemma sim_evaluate:
  assumes s: "sim m k hA hB"
  shows "sim_out m k (ret_rel m k) (evaluate n hA x func) (evaluate n hB (shift m k x) func)"
proof -
  note d = sim_deepcopy [OF s memo_rel_empty, of n x]
  show ?thesis
  proof (cases "deepcopy n hA Map.empty x")
    case None
    with d show ?thesis by (simp add: evaluate_def copy_rel_def)
  next
    case (Some q)
    obtain hA1 memoA1 y where q: "q = (hA1, memoA1, y)" by (cases q)
    with d Some obtain hB1 memoB1 where
      b: "deepcopy n hB Map.empty (shift m k x) = Some (hB1, memoB1, shift m k y)"
      and s1: "sim m k hA1 hB1" by (auto simp: copy_rel_def)
    have "sim_out m k (ret_rel m k) (Group_consume (consume n) n hA1 y None func)
            (Group_consume (consume n) n hB1 (shift m k y)
               (map_option (map_prod (shift m k) id) None) func)"
      by (rule sim_Group_consume [OF s1]) (rule sim_consume)
    then show ?thesis using Some q b by (simp add: evaluate_def)
  qed
qed

lemma sim_observe:
  assumes "sim_out m k (ret_rel m k) rA rB"
  shows "observe rB = observe rA"
proof (cases rA)
  case OutOfFuel
  with assms show ?thesis by simp
next
  case (Raised e hA)
  with assms show ?thesis by (auto simp: observe_def)
next
  case (Returned r hA)
  with assms obtain hB where b: "rB = Returned (map_sum (shift m k) id r) hB"
    and s: "sim m k hA hB" by (auto simp: ret_rel_def)
  show ?thesis
  proof (cases r)
    case (Inl a)
    show ?thesis
    proof (cases "lookup hA a")
      case None
      then show ?thesis using Returned b Inl by (simp add: observe_def sim_lookup [OF s])
    next
      case (Some ob)
      then show ?thesis using Returned b Inl
        by (cases ob) (simp_all add: observe_def sim_lookup [OF s])
    qed
  next
    case (Inr i)
    then show ?thesis using Returned b by (simp add: observe_def)
  qed
qed

lemma shift_obj_closed:
  assumes "\<forall>r \<in> refs ob. r < m"
  shows "shift_obj m k ob = ob"
proof (cases ob)
  case (Group p g cs)
  have "map (shift m k) cs = cs"
    using assms Group by (intro map_idI) (auto simp: shift_def)
  moreover have "map_option (shift m k) p = p"
    using assms Group by (cases p) (auto simp: shift_def)
  ultimately show ?thesis using Group by simp
qed simp_all

lemma sim_closed_append:
  assumes "closed h"
  shows "sim (length h) (length ext) h (h @ ext)"
  unfolding sim_def
proof (intro conjI allI impI)
  fix a assume a: "a < length h"
  then have "\<forall>r \<in> refs (h ! a). r < length h" using assms by (simp add: closed_def)
  from shift_obj_closed [OF this] a
  show "(h @ ext) ! shift (length h) (length ext) a = shift_obj (length h) (length ext) (h ! a)"
    by (simp add: shift_def nth_append)
qed simp_all

lemma evaluate_append_independent:
  assumes c: "closed h" and x: "x < length h"
  shows "observe (evaluate n (h @ ext) x func) = observe (evaluate n h x func)"
proof -
  have "shift (length h) (length ext) x = x" using x by (simp add: shift_def)
  with sim_evaluate [OF sim_closed_append [OF c, of ext], of n x func]
  show ?thesis using sim_observe by fastforce
qed

lemma parse_closed:
  assumes c: "closed h0" and w: "wf_ops P h0" and p: "parse n P h0 s ef = Returned g h"
  shows "closed h \<and> g < length h"
proof -
  let ?h2 = "h0 @ [Group None None [], Value ef []]"
  let ?d = "\<lparr>string = s, index = 0, current_group = Some (length h0),
            current_value = Suc (length h0)\<rparr>"
  note i0 = parse_inv_init [OF c w, of ef s]
  from p have sp: "spec_parse n P h0 s ef = Returned g h"
    by (simp add: parse_spec_parse [OF c w])
  then obtain d' h3 where sl: "spec_loop n P ef ?h2 ?d = Some (d', h3)"
    by (auto simp: spec_parse_def Let_def split: option.splits)
  from spec_loop_inv [OF i0 sl] obtain k' where inv: "parse_inv P (length h0) h3 d' k'"
    and g3: "grows ?h2 h3" by blast
  then obtain cg f v where cv: "lookup h3 (current_value d') = Some (Value f v)"
    and cg: "current_group d' = Some cg" and ch: "chain h3 (length h0) k' cg"
    and c3: "closed h3"
    by (auto simp: parse_inv_def)
  from chain_Group [OF ch] obtain pp gr cs where gg: "lookup h3 cg = Some (Group pp gr cs)"
    by blast
  note fl = spec_flush_props [OF cv gg c3, of ef]
  from sp sl cg have e: "g = length h0" "h = fst (spec_flush ef h3 cg (current_value d'))"
    by (auto simp: spec_parse_def Let_def)
  from grows_length [OF g3] grows_length [OF fl(1)] have "length h0 < length h"
    unfolding e by simp
  with fl(2) e show ?thesis by simp
qed

text \<open>
  C3, as the code has it. For a parsed Group \<open>g\<close> in the store \<open>h\<close> and evaluation
  functions \<open>f1\<close>, \<open>f2\<close>: when \<open>g.evaluate(f1)\<close> has returned or raised, every object that
  was in the store before the call is unchanged (so \<open>g\<close>, its children, nested Groups,
  Values and operators are as parsed); \<open>g.evaluate(f2)\<close> afterwards gives what it gives
  on the freshly parsed tree, value and consumed length or error alike; and it leaves
  the parsed objects unchanged again.
\<close>

theorem evaluate_reusable:
  assumes "closed h0" and "wf_ops P h0" and "parse n0 P h0 s ef = Returned g h"
    and "evaluate n h g f1 = Raised e h1 \<or> evaluate n h g f1 = Returned r h1"
  shows "take (length h) h1 = h \<and>
         observe (evaluate n h1 g f2) = observe (evaluate n h g f2) \<and>
         (\<forall>e2 r2 h2. evaluate n h1 g f2 = Raised e2 h2 \<or> evaluate n h1 g f2 = Returned r2 h2 \<longrightarrow>
            take (length h) h2 = h)"
proof -
  from parse_closed [OF assms(1-3)] have c: "closed h" and g: "g < length h" by auto
  from evaluate_unchanged [OF assms(4)] have t: "take (length h) h1 = h" .
  then have h1: "h1 = h @ drop (length h) h1" by (metis append_take_drop_id)
  have "observe (evaluate n (h @ drop (length h) h1) g f2) = observe (evaluate n h g f2)"
    by (rule evaluate_append_independent [OF c g])
  then have ind: "observe (evaluate n h1 g f2) = observe (evaluate n h g f2)"
    using h1 by simp
  have "take (length h) h2 = h"
    if "evaluate n h1 g f2 = Raised e2 h2 \<or> evaluate n h1 g f2 = Returned r2 h2" for e2 r2 h2
  proof -
    from evaluate_unchanged [OF that] have "take (length h1) h2 = h1" .
    moreover have "length h \<le> length h1" using h1 by (metis length_append le_add1)
    ultimately have "take (length h) h2 = take (length h) h1" by (rule take_take_le [rotated])
    with t show ?thesis by simp
  qed
  with t ind show ?thesis by blast
qed

theorem evaluate_reusable_witness:
  "\<exists>g h r h1.
     parse 20 example_parser example_store ''a&&b'' (\<lambda>s. True) = Returned g h \<and>
     evaluate 20 h g (Some (\<lambda>s. s = ''a'')) = Returned r h1 \<and>
     take (length h) h1 = h \<and>
     observe (evaluate 20 h1 g (Some (\<lambda>s. True))) = Yields True 4"
proof -
  have "case parse 20 example_parser example_store ''a&&b'' (\<lambda>s. True) of
          Returned g h \<Rightarrow>
            (case evaluate 20 h g (Some (\<lambda>s. s = ''a'')) of
               Returned r h1 \<Rightarrow> observe (evaluate 20 h g (Some (\<lambda>s. True))) = Yields True 4
             | _ \<Rightarrow> False)
        | _ \<Rightarrow> False"
    by code_simp
  then obtain g h r h1 where
    p: "parse 20 example_parser example_store ''a&&b'' (\<lambda>s. True) = Returned g h"
    and e: "evaluate 20 h g (Some (\<lambda>s. s = ''a'')) = Returned r h1"
    and o: "observe (evaluate 20 h g (Some (\<lambda>s. True))) = Yields True 4"
    by (auto split: outcome.splits)
  from e have e': "evaluate 20 h g (Some (\<lambda>s. s = ''a'')) = Raised IndexError h1 \<or>
      evaluate 20 h g (Some (\<lambda>s. s = ''a'')) = Returned r h1" by simp
  from evaluate_reusable [OF closed_example_store wf_ops_example p e', of "Some (\<lambda>s. True)"] p e o
  show ?thesis by auto
qed

text \<open>The calls need not succeed: the parsed tree of \<open>marley &&\<close> makes \<open>evaluate\<close>
  raise InvalidOperandError.\<close>

theorem evaluate_can_fail:
  "parse_evaluate 100 example_parser example_store ''marley &&'' (\<lambda>s. True)
     (Some (song_filter ''Bob Marley - Jammin'')) =
   Raises (InvalidOperandError (OperatorAtIndex 7) (Some 7))"
  by code_simp

end
